theory Spec2Isabelle
  imports Complex_Main
begin

section \<open>The grid iterators of gsTensor/gsGridIterator.h\<close>

text \<open>
  The integer coordinate type \<open>Z\<close> (\<open>index_t\<close>) is modelled by \<open>int\<close>: signed overflow is
  undefined in the source and outside this model. A point (\<open>gsVector<Z,d>\<close>) is the list
  of its coordinates. The template parameter \<open>d\<close> is \<open>None\<close> for the dynamic dimension
  (\<open>d = -1\<close>) and \<open>Some k\<close> for a fixed one; the template parameter \<open>mode\<close> is a value of
  the enumeration. The member \<open>m_dim\<close> is never negative (it is \<open>rows()\<close> or 0) and is a
  natural number here.

  A coordinate is read with \<open>!\<close> and written with a list update. Every index the source
  uses is in range when the bounds have one dimension and the compile-time dimension, if
  there is one, is that dimension; the source leaves anything else undefined, and the
  theorems below assume it.
\<close>

datatype gsGridIteratorMode = CUBE | BDR | VERTEX | CWISE

datatype grid_error = InvalidEndpointDimensions | NumPointsError | InvalidInput | EmptyContainer

record gsGridIterator =
  m_low :: "int list"
  m_upp :: "int list"
  m_cur :: "int list"
  m_dim :: nat

subsection \<open>Construction and reset\<close>

text \<open>\<open>reset(a, b, open)\<close>: the assertion on the dimensions is the error branch.\<close>

definition reset3 :: "int list \<Rightarrow> int list \<Rightarrow> bool \<Rightarrow> grid_error + gsGridIterator" where
  "reset3 a b opn =
     (if length a \<noteq> length b then Inl InvalidEndpointDimensions
      else let upp = (if opn then map (\<lambda>x. x - 1) b else b)
           in Inr \<lparr> m_low = a, m_upp = upp, m_cur = a,
                    m_dim = (if list_all2 (\<le>) a upp then length a else 0) \<rparr>)"

text \<open>\<open>reset()\<close> is \<open>reset(m_low, m_upp, false)\<close> on the stored bounds.\<close>

definition reset0 :: "gsGridIterator \<Rightarrow> grid_error + gsGridIterator" where
  "reset0 it = reset3 (m_low it) (m_upp it) False"

text \<open>The constructors \<open>gsGridIterator(a, b, open)\<close> and \<open>gsGridIterator(b, open)\<close>.\<close>

definition gsGridIterator_ab :: "int list \<Rightarrow> int list \<Rightarrow> bool \<Rightarrow> grid_error + gsGridIterator" where
  "gsGridIterator_ab a b opn = reset3 a b opn"

definition gsGridIterator_b :: "int list \<Rightarrow> bool \<Rightarrow> grid_error + gsGridIterator" where
  "gsGridIterator_b b opn = reset3 (replicate (length b) 0) b opn"

subsection \<open>Cursor operations\<close>

text \<open>\<open>operator bool\<close> and \<open>operator*\<close>.\<close>

definition hasNext :: "gsGridIterator \<Rightarrow> bool" where
  "hasNext it = (0 \<noteq> m_dim it)"

definition deref :: "gsGridIterator \<Rightarrow> int list" where
  "deref it = m_cur it"

text \<open>The bound \<open>(d==-1 ? m_dim : d)\<close> of the loops over the axes.\<close>

definition loop_end :: "nat option \<Rightarrow> gsGridIterator \<Rightarrow> nat" where
  "loop_end d it = (case d of None \<Rightarrow> m_dim it | Some k \<Rightarrow> k)"

text \<open>
  Cases 0 and 2 of \<open>operator++\<close>: the loop over the axes \<open>i\<close>, as a recursion over the
  axes still to visit. The first axis that is not at its upper limit is advanced (by one
  in mode 0, to the upper limit in mode 2) and the function returns; an axis at its upper
  limit is set back to the lower limit. When the loop runs out, \<open>m_dim\<close> is set to 0.
\<close>

fun advance02 :: "gsGridIteratorMode \<Rightarrow> nat list \<Rightarrow> gsGridIterator \<Rightarrow> gsGridIterator" where
  "advance02 mode [] it = it\<lparr> m_dim := 0 \<rparr>"
| "advance02 mode (i # axes) it =
     (if m_cur it ! i \<noteq> m_upp it ! i
      then it\<lparr> m_cur := (m_cur it)[i := (if mode = CUBE then m_cur it ! i + 1 else m_upp it ! i)] \<rparr>
      else advance02 mode axes (it\<lparr> m_cur := (m_cur it)[i := m_low it ! i] \<rparr>))"

text \<open>
  Case 1: the counter \<open>c\<close> starts at \<open>i+1\<close> and is incremented for every axis \<open>j\<close> from
  \<open>i+1\<close> on whose coordinate is at a bound.
\<close>

definition count_c :: "nat option \<Rightarrow> nat \<Rightarrow> gsGridIterator \<Rightarrow> nat" where
  "count_c d i it =
     fold (\<lambda>j c. if m_cur it ! j = m_low it ! j \<or> m_cur it ! j = m_upp it ! j then c + 1 else c)
       [i + 1 ..< loop_end d it] (i + 1)"

text \<open>The body executed in case 1 for the first axis \<open>i\<close> that is not at its upper limit.\<close>

definition advance1_at :: "nat option \<Rightarrow> nat \<Rightarrow> gsGridIterator \<Rightarrow> gsGridIterator" where
  "advance1_at d i it =
     (let cur1 =
        (if m_cur it ! i = m_low it ! i \<and> (i + 1 \<noteq> m_dim it \<or> m_dim it = 1)
         then (if count_c d i it = 1
               then (m_cur it)[i := m_upp it ! i]
               else (m_cur it)[i := m_cur it ! i + 1])
         else (m_cur it)[i := m_cur it ! i + 1])
      in it\<lparr> m_cur := fold (\<lambda>k c. c[k := m_low it ! k]) (rev [0 ..< i]) cur1 \<rparr>)"

fun advance1 :: "nat option \<Rightarrow> nat list \<Rightarrow> gsGridIterator \<Rightarrow> gsGridIterator" where
  "advance1 d [] it = it\<lparr> m_dim := 0 \<rparr>"
| "advance1 d (i # axes) it =
     (if m_cur it ! i \<noteq> m_upp it ! i then advance1_at d i it else advance1 d axes it)"

text \<open>\<open>operator++\<close>: the switch over the mode; any other mode takes the default branch.\<close>

definition incr :: "gsGridIteratorMode \<Rightarrow> nat option \<Rightarrow> gsGridIterator \<Rightarrow> gsGridIterator" where
  "incr mode d it =
     (case mode of
        CUBE \<Rightarrow> advance02 mode [0 ..< loop_end d it] it
      | VERTEX \<Rightarrow> advance02 mode [0 ..< loop_end d it] it
      | BDR \<Rightarrow> advance1 d [0 ..< loop_end d it] it
      | CWISE \<Rightarrow> it\<lparr> m_dim := 0 \<rparr>)"

subsection \<open>Queries\<close>

definition isFloor :: "gsGridIterator \<Rightarrow> nat \<Rightarrow> bool" where
  "isFloor it i = (m_cur it ! i = m_low it ! i)"

text \<open>\<open>isCeil\<close>: \<open>mode ? m_cur[i] == m_upp[i] : m_cur[i] + 1 == m_upp[i]\<close>.\<close>

definition isCeil :: "gsGridIteratorMode \<Rightarrow> gsGridIterator \<Rightarrow> nat \<Rightarrow> bool" where
  "isCeil mode it i =
     (if mode \<noteq> CUBE then m_cur it ! i = m_upp it ! i else m_cur it ! i + 1 = m_upp it ! i)"

definition isBoundary :: "gsGridIterator \<Rightarrow> bool" where
  "isBoundary it =
     (list_ex (\<lambda>(c, l). c = l) (zip (m_cur it) (m_low it)) \<or>
      list_ex (\<lambda>(c, u). c = u) (zip (m_cur it) (m_upp it)))"

text \<open>\<open>numPointsCwise\<close> is \<open>(m_upp - m_low).array() + 1\<close>.\<close>

definition numPointsCwise :: "gsGridIterator \<Rightarrow> int list" where
  "numPointsCwise it = map (\<lambda>x. x + 1) (map2 (-) (m_upp it) (m_low it))"

definition numPoints :: "gsGridIteratorMode \<Rightarrow> gsGridIterator \<Rightarrow> grid_error + int" where
  "numPoints mode it =
     (case mode of
        CUBE \<Rightarrow> Inr (prod_list (map (\<lambda>x. x + 1) (map2 (-) (m_upp it) (m_low it))))
      | BDR \<Rightarrow> Inr (prod_list (map (\<lambda>x. x + 1) (map2 (-) (m_upp it) (m_low it)))
                    - prod_list (map (\<lambda>x. x - 1) (map2 (-) (m_upp it) (m_low it))))
      | VERTEX \<Rightarrow> Inr (2 ^ length (m_low it))
      | CWISE \<Rightarrow> Inl NumPointsError)"

definition lower :: "gsGridIterator \<Rightarrow> int list" where
  "lower it = m_low it"

definition upper :: "gsGridIterator \<Rightarrow> int list" where
  "upper it = m_upp it"

text \<open>
  \<open>strides\<close>: the vector \<open>res\<close> has \<open>m_low.rows()\<close> entries, \<open>res[0] = 1\<close>, and the loop
  fills \<open>res[i]\<close> for \<open>i = 1, 2, ...\<close> from \<open>res[i-1]\<close>. The entries the source leaves
  uninitialised before it writes them are 0 here; each is overwritten before it is read.
\<close>

definition strides :: "gsGridIterator \<Rightarrow> int list" where
  "strides it =
     fold (\<lambda>i res. res[i := res ! (i - 1) * (m_upp it ! (i - 1) - m_low it ! (i - 1) + 1)])
       [1 ..< length (m_low it)]
       ((replicate (length (m_low it)) 0)[0 := 1])"

text \<open>The dot product of two vectors, and the flat index \<open>dot(p - low, strides())\<close>.\<close>

definition dot :: "int list \<Rightarrow> int list \<Rightarrow> int" where
  "dot xs ys = sum_list (map2 (*) xs ys)"

definition flat_index :: "gsGridIterator \<Rightarrow> int list \<Rightarrow> int" where
  "flat_index it p = dot (map2 (-) p (m_low it)) (strides it)"

subsection \<open>A full traversal\<close>

text \<open>
  The loop \<open>for (; it; ++it) emit(*it)\<close> every caller writes, for any of the three
  iterators: \<open>has\<close> is the boolean conversion, \<open>get\<close> the dereference, \<open>nxt\<close> the
  increment. The result is the list of the emitted points and the exhausted iterator;
  \<open>None\<close> when the fuel runs out before the iterator is exhausted.
\<close>

fun traverse :: "('s \<Rightarrow> bool) \<Rightarrow> ('s \<Rightarrow> 'p) \<Rightarrow> ('s \<Rightarrow> 's) \<Rightarrow> nat \<Rightarrow> 's \<Rightarrow> ('p list \<times> 's) option" where
  "traverse has get nxt 0 it = (if has it then None else Some ([], it))"
| "traverse has get nxt (Suc fuel) it =
     (if has it
      then (case traverse has get nxt fuel (nxt it) of
              None \<Rightarrow> None
            | Some (ps, fin) \<Rightarrow> Some (get it # ps, fin))
      else Some ([], it))"

definition points :: "gsGridIteratorMode \<Rightarrow> nat option \<Rightarrow> nat \<Rightarrow> gsGridIterator
                        \<Rightarrow> (int list list \<times> gsGridIterator) option" where
  "points mode d fuel it = traverse hasNext deref (incr mode d) fuel it"

subsection \<open>The uniform sample iterator\<close>

text \<open>
  The coordinate type \<open>T\<close> is a floating-point type in the source. Its arithmetic is a
  parameter of the model: the operations \<open>+\<close>, \<open>-\<close>, \<open>*\<close>, \<open>/\<close> of \<open>T\<close> and the conversion
  of an index to \<open>T\<close>. No property of them is assumed.
\<close>

record 'a scalar_ops =
  s_add :: "'a \<Rightarrow> 'a \<Rightarrow> 'a"
  s_sub :: "'a \<Rightarrow> 'a \<Rightarrow> 'a"
  s_mul :: "'a \<Rightarrow> 'a \<Rightarrow> 'a"
  s_div :: "'a \<Rightarrow> 'a \<Rightarrow> 'a"
  s_cast :: "int \<Rightarrow> 'a"

text \<open>
  The members \<open>m_low\<close>, \<open>m_upp\<close>, \<open>m_step\<close>, \<open>m_iter\<close>, \<open>m_cur\<close> of the sample iterator
  carry the prefix \<open>t_\<close>, the names without it being those of the integer iterator.
\<close>

record 'a gsGridIteratorT =
  t_low :: "'a list"
  t_upp :: "'a list"
  t_step :: "'a list"
  t_iter :: gsGridIterator
  t_cur :: "'a list"

text \<open>
  \<open>reset(a, b)\<close>: the step is \<open>(b - a) / cast(max(numPointsCwise - 1, 1))\<close>, coefficient
  by coefficient, and the integer iterator is reset on its stored bounds.
\<close>

definition resetT2 :: "'a scalar_ops \<Rightarrow> 'a list \<Rightarrow> 'a list \<Rightarrow> 'a gsGridIteratorT
                         \<Rightarrow> grid_error + 'a gsGridIteratorT" where
  "resetT2 ops a b it =
     (case reset0 (t_iter it) of
        Inl e \<Rightarrow> Inl e
      | Inr li \<Rightarrow>
          Inr \<lparr> t_low = a, t_upp = b,
                t_step = map2 (s_div ops) (map2 (s_sub ops) b a)
                           (map (\<lambda>n. s_cast ops (max (n - 1) 1)) (numPointsCwise (t_iter it))),
                t_iter = li, t_cur = a \<rparr>)"

text \<open>\<open>reset()\<close>: \<open>m_cur = m_low; m_iter.reset()\<close>.\<close>

definition resetT0 :: "'a gsGridIteratorT \<Rightarrow> grid_error + 'a gsGridIteratorT" where
  "resetT0 it =
     (case reset0 (t_iter it) of
        Inl e \<Rightarrow> Inl e
      | Inr li \<Rightarrow> Inr (it\<lparr> t_cur := t_low it, t_iter := li \<rparr>))"

text \<open>
  The constructor from \<open>(a, b, np)\<close>: the integer iterator is built by \<open>m_iter(np, 1)\<close>,
  that is from the upper limit \<open>np\<close> with \<open>open = true\<close>, then \<open>reset(a, b)\<close> runs. The
  members not yet set when \<open>reset(a, b)\<close> starts are empty here; it overwrites them all.
\<close>

definition gsGridIteratorT_abn :: "'a scalar_ops \<Rightarrow> 'a list \<Rightarrow> 'a list \<Rightarrow> int list
                                     \<Rightarrow> grid_error + 'a gsGridIteratorT" where
  "gsGridIteratorT_abn ops a b np =
     (case gsGridIterator_b np True of
        Inl e \<Rightarrow> Inl e
      | Inr li \<Rightarrow> resetT2 ops a b \<lparr> t_low = [], t_upp = [], t_step = [], t_iter = li, t_cur = [] \<rparr>)"

definition hasNextT :: "'a gsGridIteratorT \<Rightarrow> bool" where
  "hasNextT it = hasNext (t_iter it)"

definition derefT :: "'a gsGridIteratorT \<Rightarrow> 'a list" where
  "derefT it = t_cur it"

definition tensorIndex :: "'a gsGridIteratorT \<Rightarrow> int list" where
  "tensorIndex it = deref (t_iter it)"

text \<open>
  \<open>operator++\<close>: the integer iterator advances; if it is not exhausted, every coordinate
  of the current point is recomputed, in the order floor, ceiling, interior.
\<close>

definition incrT :: "'a scalar_ops \<Rightarrow> gsGridIteratorMode \<Rightarrow> nat option \<Rightarrow> 'a gsGridIteratorT
                       \<Rightarrow> 'a gsGridIteratorT" where
  "incrT ops mode d it =
     (let li = incr mode d (t_iter it)
      in if hasNext li
         then it\<lparr> t_iter := li,
                  t_cur := fold (\<lambda>i cur.
                      cur[i := (if isFloor li i then t_low it ! i
                                else if isCeil mode li i then t_upp it ! i
                                else s_add ops (t_low it ! i)
                                       (s_mul ops (s_cast ops (m_cur li ! i)) (t_step it ! i)))])
                    [0 ..< (case d of None \<Rightarrow> length (t_low it) | Some k \<Rightarrow> k)]
                    (t_cur it) \<rparr>
         else it\<lparr> t_iter := li \<rparr>)"

text \<open>A full traversal, emitting the tensor index together with the sample point.\<close>

definition samples :: "'a scalar_ops \<Rightarrow> gsGridIteratorMode \<Rightarrow> nat option \<Rightarrow> nat \<Rightarrow> 'a gsGridIteratorT
                         \<Rightarrow> ((int list \<times> 'a list) list \<times> 'a gsGridIteratorT) option" where
  "samples ops mode d fuel it =
     traverse hasNextT (\<lambda>s. (tensorIndex s, derefT s)) (incrT ops mode d) fuel it"

subsection \<open>The coordinate-wise iterator\<close>

text \<open>
  A \<open>gsMatrix\<close> is its number of rows, its number of columns and its coefficients in
  storage order; for the vectors used here \<open>at(i)\<close> is the \<open>i\<close>-th coefficient. A
  coefficient of the current point is \<open>None\<close> while nothing has been written to it (the
  source resizes the matrix without initialising it), and a read outside the storage of a
  coordinate array gives \<open>None\<close> as well.
\<close>

record 'a gsMatrix =
  rows :: nat
  cols :: nat
  coeffs :: "'a list"

definition mat_at :: "'a gsMatrix \<Rightarrow> int \<Rightarrow> 'a option" where
  "mat_at m k = (if 0 \<le> k \<and> nat k < length (coeffs m) then Some (coeffs m ! nat k) else None)"

text \<open>The members carry the prefix \<open>c_\<close>.\<close>

record 'a gsGridIteratorC =
  c_cwise :: "'a gsMatrix list"
  c_iter :: gsGridIterator
  c_cur :: "'a option gsMatrix"

text \<open>\<open>update\<close>: the loop runs over \<open>i = 0, ..., m_cur.rows() - 1\<close>.\<close>

definition update :: "'a gsGridIteratorC \<Rightarrow> 'a gsGridIteratorC" where
  "update it =
     it\<lparr> c_cur := fold (\<lambda>i cur. cur\<lparr> coeffs := (coeffs cur)[i := mat_at (c_cwise it ! i) (m_cur (c_iter it) ! i)] \<rparr>)
                    [0 ..< rows (c_cur it)] (c_cur it) \<rparr>"

text \<open>
  The constructor: the extent of axis \<open>i\<close> is \<open>cwise[i].rows() - 1\<close>, the assertion accepts
  a coordinate array that is a column or a row, the integer iterator is built from the
  upper limit with \<open>open = false\<close>, and the current point is resized to
  \<open>cwise.size()\<close>-by-1 when the first array has one row and to 1-by-\<open>cwise.size()\<close>
  otherwise. \<open>cwise.front()\<close> of an empty container is undefined in the source and an
  error here.
\<close>

definition gsGridIteratorC_cwise :: "'a gsMatrix list \<Rightarrow> grid_error + 'a gsGridIteratorC" where
  "gsGridIteratorC_cwise cwise =
     (if cwise = [] then Inl EmptyContainer
      else if \<not> list_all (\<lambda>m. cols m = 1 \<or> rows m = 1) cwise then Inl InvalidInput
      else case gsGridIterator_b (map (\<lambda>m. int (rows m) - 1) cwise) False of
             Inl e \<Rightarrow> Inl e
           | Inr li \<Rightarrow>
               Inr (update \<lparr> c_cwise = cwise, c_iter = li,
                             c_cur = (if 1 = rows (hd cwise)
                                      then \<lparr> rows = length cwise, cols = 1,
                                             coeffs = replicate (length cwise) None \<rparr>
                                      else \<lparr> rows = 1, cols = length cwise,
                                             coeffs = replicate (length cwise) None \<rparr>) \<rparr>))"

definition resetC :: "'a gsGridIteratorC \<Rightarrow> grid_error + 'a gsGridIteratorC" where
  "resetC it =
     (case reset0 (c_iter it) of
        Inl e \<Rightarrow> Inl e
      | Inr li \<Rightarrow> Inr (update (it\<lparr> c_iter := li \<rparr>)))"

definition hasNextC :: "'a gsGridIteratorC \<Rightarrow> bool" where
  "hasNextC it = hasNext (c_iter it)"

definition derefC :: "'a gsGridIteratorC \<Rightarrow> 'a option gsMatrix" where
  "derefC it = c_cur it"

text \<open>\<open>operator++\<close>: \<open>if (++m_iter) update()\<close>; the integer iterator has mode 0.\<close>

definition incrC :: "nat option \<Rightarrow> 'a gsGridIteratorC \<Rightarrow> 'a gsGridIteratorC" where
  "incrC d it =
     (let li = incr CUBE d (c_iter it)
      in if hasNext li then update (it\<lparr> c_iter := li \<rparr>) else it\<lparr> c_iter := li \<rparr>)"

definition pointsC :: "nat option \<Rightarrow> nat \<Rightarrow> 'a gsGridIteratorC
                         \<Rightarrow> ('a option gsMatrix list \<times> 'a gsGridIteratorC) option" where
  "pointsC d fuel it = traverse hasNextC derefC (incrC d) fuel it"

section \<open>Notions used in the proofs\<close>

text \<open>
  The product of the extents of the axes below \<open>k\<close>, and the mixed-radix value of the
  first \<open>k\<close> coordinates of a point relative to the lower corner.
\<close>

definition stride_at :: "int list \<Rightarrow> int list \<Rightarrow> nat \<Rightarrow> int" where
  "stride_at low upp k = (\<Prod>j<k. upp ! j - low ! j + 1)"

definition rank :: "int list \<Rightarrow> int list \<Rightarrow> nat \<Rightarrow> int list \<Rightarrow> int" where
  "rank low upp k p = (\<Sum>i<k. (p ! i - low ! i) * stride_at low upp i)"

text \<open>A point of dimension \<open>n\<close> inside the box, and a point on its boundary.\<close>

definition inbox :: "nat \<Rightarrow> int list \<Rightarrow> int list \<Rightarrow> int list \<Rightarrow> bool" where
  "inbox n low upp p \<longleftrightarrow> length p = n \<and> (\<forall>i<n. low ! i \<le> p ! i \<and> p ! i \<le> upp ! i)"

definition onbdr :: "nat \<Rightarrow> int list \<Rightarrow> int list \<Rightarrow> int list \<Rightarrow> bool" where
  "onbdr n low upp p \<longleftrightarrow> (\<exists>i<n. p ! i = low ! i \<or> p ! i = upp ! i)"

text \<open>
  A live iterator over the non-empty box \<open>[low, upp]\<close> of dimension \<open>n > 0\<close>, whose
  compile-time dimension, if there is one, is \<open>n\<close>.
\<close>

definition live :: "nat option \<Rightarrow> nat \<Rightarrow> int list \<Rightarrow> int list \<Rightarrow> gsGridIterator \<Rightarrow> bool" where
  "live d n low upp it \<longleftrightarrow>
     0 < n \<and> (d = None \<or> d = Some n) \<and> length low = n \<and> length upp = n \<and>
     m_low it = low \<and> m_upp it = upp \<and> m_dim it = n \<and> inbox n low upp (m_cur it)"

text \<open>
  One step of a lexicographic walk at axis \<open>i\<close>: the axes below \<open>i\<close> go from the upper
  to the lower limit, axis \<open>i\<close> moves up, the axes above \<open>i\<close> stay.
\<close>

definition lexstep :: "nat \<Rightarrow> int list \<Rightarrow> int list \<Rightarrow> nat \<Rightarrow> int list \<Rightarrow> int list \<Rightarrow> bool" where
  "lexstep n low upp i p q \<longleftrightarrow>
     i < n \<and> length q = n \<and>
     (\<forall>j<i. p ! j = upp ! j \<and> q ! j = low ! j) \<and>
     p ! i < q ! i \<and> q ! i \<le> upp ! i \<and>
     (\<forall>j. i < j \<and> j < n \<longrightarrow> q ! j = p ! j)"

text \<open>
  Two coordinate-wise iterators agree when they differ at most in the position of the
  integer iterator inside the same bounds and in the coefficients of the current point
  that \<open>update\<close> writes.
\<close>

definition agree :: "'a gsGridIteratorC \<Rightarrow> 'a gsGridIteratorC \<Rightarrow> bool" where
  "agree s t \<longleftrightarrow>
     c_cwise s = c_cwise t \<and>
     m_low (c_iter s) = m_low (c_iter t) \<and> m_upp (c_iter s) = m_upp (c_iter t) \<and>
     rows (c_cur s) = rows (c_cur t) \<and> cols (c_cur s) = cols (c_cur t) \<and>
     length (coeffs (c_cur s)) = length (coeffs (c_cur t)) \<and>
     rows (c_cur t) \<le> length (coeffs (c_cur t)) \<and>
     (\<forall>j. rows (c_cur t) \<le> j \<and> j < length (coeffs (c_cur t))
          \<longrightarrow> coeffs (c_cur s) ! j = coeffs (c_cur t) ! j)"

text \<open>
  The value \<open>operator++\<close> of the sample iterator stores in coordinate \<open>i\<close> when the
  integer iterator stands at \<open>li\<close>.
\<close>

definition coord :: "'a scalar_ops \<Rightarrow> gsGridIteratorMode \<Rightarrow> 'a gsGridIteratorT \<Rightarrow> gsGridIterator \<Rightarrow> nat \<Rightarrow> 'a" where
  "coord ops mode it li i =
     (if isFloor li i then t_low it ! i
      else if isCeil mode li i then t_upp it ! i
      else s_add ops (t_low it ! i) (s_mul ops (s_cast ops (m_cur li ! i)) (t_step it ! i)))"

text \<open>
  The value of the first \<open>k\<close> coordinates of a corner read as a binary number: the digit
  of axis \<open>i\<close> is 1 when the coordinate is at the upper limit.
\<close>

definition vrank :: "int list \<Rightarrow> nat \<Rightarrow> int list \<Rightarrow> nat" where
  "vrank upp k p = (\<Sum>i<k. if p ! i = upp ! i then 2 ^ i else 0)"

definition corner :: "nat \<Rightarrow> int list \<Rightarrow> int list \<Rightarrow> int list \<Rightarrow> bool" where
  "corner n low upp p \<longleftrightarrow> (\<forall>i<n. p ! i = low ! i \<or> p ! i = upp ! i)"

section \<open>The traversal loop\<close>

text \<open>
  A traversal that returns has run the increment some number \<open>m\<close> of times: the iterator
  was live before each of them and is exhausted after the last, and the emitted points
  are those of the \<open>m\<close> live states, in order.
\<close>

lemma map_funpow_upt_Suc:
  "map (\<lambda>k. get ((nxt ^^ k) s)) [0 ..< Suc m]
   = get s # map (\<lambda>k. get ((nxt ^^ k) (nxt s))) [0 ..< m]"
  by (simp only: upt_conv_Cons [OF zero_less_Suc] map_Suc_upt [symmetric] list.map)
     (simp add: funpow_swap1 comp_def)

lemma traverse_complete:
  "(\<forall>k<m. has ((nxt ^^ k) s)) \<Longrightarrow> \<not> has ((nxt ^^ m) s) \<Longrightarrow> m \<le> fuel \<Longrightarrow>
   traverse has get nxt fuel s = Some (map (\<lambda>k. get ((nxt ^^ k) s)) [0 ..< m], (nxt ^^ m) s)"
proof (induction m arbitrary: s fuel)
  case 0
  then show ?case by (cases fuel) simp_all
next
  case (Suc m)
  from Suc.prems(1) have h0: "has s" by (metis funpow_0 zero_less_Suc)
  from Suc.prems(3) obtain f where f: "fuel = Suc f" "m \<le> f" by (cases fuel) auto
  have a: "\<forall>k<m. has ((nxt ^^ k) (nxt s))"
  proof (intro allI impI)
    fix k assume "k < m"
    then have "has ((nxt ^^ Suc k) s)" using Suc.prems(1) by blast
    then show "has ((nxt ^^ k) (nxt s))" by (simp add: funpow_swap1)
  qed
  have b: "\<not> has ((nxt ^^ m) (nxt s))"
    using Suc.prems(2) by (simp add: funpow_swap1)
  have ih: "traverse has get nxt f (nxt s)
            = Some (map (\<lambda>k. get ((nxt ^^ k) (nxt s))) [0 ..< m], (nxt ^^ m) (nxt s))"
    by (rule Suc.IH [OF a b f(2)])
  show ?case
    unfolding f(1) map_funpow_upt_Suc using h0 ih by (simp add: funpow_swap1)
qed

lemma traverse_sound:
  "traverse has get nxt fuel s = Some (ps, fin) \<Longrightarrow>
   \<exists>m\<le>fuel. (\<forall>k<m. has ((nxt ^^ k) s)) \<and> \<not> has ((nxt ^^ m) s) \<and>
        ps = map (\<lambda>k. get ((nxt ^^ k) s)) [0 ..< m] \<and> fin = (nxt ^^ m) s"
proof (induction fuel arbitrary: s ps fin)
  case 0
  then have "\<not> has s" "ps = []" "fin = s" by (auto split: if_splits)
  then show ?case by (intro exI [of _ 0]) simp
next
  case (Suc fuel)
  show ?case
  proof (cases "has s")
    case False
    with Suc.prems have "ps = []" "fin = s" by auto
    with False show ?thesis by (intro exI [of _ 0]) simp
  next
    case True
    with Suc.prems obtain ps' where
      t: "traverse has get nxt fuel (nxt s) = Some (ps', fin)" and ps: "ps = get s # ps'"
      by (auto split: option.splits)
    from Suc.IH [OF t] obtain m where m: "m \<le> fuel" "\<forall>k<m. has ((nxt ^^ k) (nxt s))"
      "\<not> has ((nxt ^^ m) (nxt s))" "ps' = map (\<lambda>k. get ((nxt ^^ k) (nxt s))) [0 ..< m]"
      "fin = (nxt ^^ m) (nxt s)" by blast
    have a: "\<forall>k<Suc m. has ((nxt ^^ k) s)"
    proof (intro allI impI)
      fix k assume "k < Suc m"
      then show "has ((nxt ^^ k) s)"
        using True m(2) by (cases k) (auto simp: funpow_swap1)
    qed
    show ?thesis
      apply (rule exI [of _ "Suc m"])
      using m a ps unfolding map_funpow_upt_Suc by (simp add: funpow_swap1)
  qed
qed

section \<open>Strides and the mixed-radix rank of a point\<close>

lemma stride_at_0 [simp]: "stride_at low upp 0 = 1"
  by (simp add: stride_at_def)

lemma stride_at_Suc: "stride_at low upp (Suc k) = stride_at low upp k * (upp ! k - low ! k + 1)"
  by (simp add: stride_at_def)

lemma rank_0 [simp]: "rank low upp 0 p = 0"
  by (simp add: rank_def)

lemma rank_Suc: "rank low upp (Suc k) p = rank low upp k p + (p ! k - low ! k) * stride_at low upp k"
  by (simp add: rank_def)

lemma stride_at_pos:
  "\<forall>i<n. low ! i \<le> upp ! i \<Longrightarrow> k \<le> n \<Longrightarrow> 0 < stride_at low upp k"
proof (induction k)
  case 0 show ?case by simp
next
  case (Suc k)
  then have "0 < stride_at low upp k" "0 < upp ! k - low ! k + 1" by auto
  then show ?case by (simp add: stride_at_Suc)
qed

lemma rank_bounds:
  assumes "inbox n low upp p" "k \<le> n"
  shows "0 \<le> rank low upp k p \<and> rank low upp k p < stride_at low upp k"
  using assms(2)
proof (induction k)
  case 0 show ?case by simp
next
  case (Suc k)
  have b: "low ! k \<le> p ! k" "p ! k \<le> upp ! k" using assms(1) Suc.prems by (auto simp: inbox_def)
  have nonempty: "\<forall>i<n. low ! i \<le> upp ! i" using assms(1) by (auto simp: inbox_def intro: order_trans)
  have s: "0 < stride_at low upp k" using stride_at_pos [OF nonempty] Suc.prems by simp
  have ih: "0 \<le> rank low upp k p" "rank low upp k p < stride_at low upp k" using Suc by auto
  have m: "(p ! k - low ! k) * stride_at low upp k \<le> (upp ! k - low ! k) * stride_at low upp k"
    using b s by (intro mult_right_mono) auto
  have z: "0 \<le> (p ! k - low ! k) * stride_at low upp k" using b s by simp
  have e: "stride_at low upp (Suc k) = stride_at low upp k + (upp ! k - low ! k) * stride_at low upp k"
    by (simp add: stride_at_Suc algebra_simps)
  show ?case unfolding rank_Suc e using ih m z by linarith
qed

lemma rank_prefix_inj:
  assumes "inbox n low upp p" "inbox n low upp q" "k \<le> n" "rank low upp k p = rank low upp k q"
  shows "\<forall>i<k. p ! i = q ! i"
  using assms(3,4)
proof (induction k)
  case 0 show ?case by simp
next
  case (Suc k)
  let ?s = "stride_at low upp k"
  have bp: "0 \<le> rank low upp k p" "rank low upp k p < ?s"
    using rank_bounds [OF assms(1), of k] Suc.prems by auto
  have bq: "0 \<le> rank low upp k q" "rank low upp k q < ?s"
    using rank_bounds [OF assms(2), of k] Suc.prems by auto
  have e: "rank low upp k p + (p ! k - low ! k) * ?s = rank low upp k q + (q ! k - low ! k) * ?s"
    using Suc.prems(2) by (simp add: rank_Suc)
  have "(rank low upp k p + (p ! k - low ! k) * ?s) div ?s = p ! k - low ! k"
    using bp by (simp add: div_pos_pos_trivial)
  moreover have "(rank low upp k q + (q ! k - low ! k) * ?s) div ?s = q ! k - low ! k"
    using bq by (simp add: div_pos_pos_trivial)
  ultimately have k: "p ! k = q ! k" using e by simp
  with e have "rank low upp k p = rank low upp k q" by simp
  with Suc have "\<forall>i<k. p ! i = q ! i" by simp
  with k show ?case by (auto simp: less_Suc_eq)
qed

lemma rank_inj:
  assumes "inbox n low upp p" "inbox n low upp q" "rank low upp n p = rank low upp n q"
  shows "p = q"
proof (rule nth_equalityI)
  show "length p = length q" using assms by (simp add: inbox_def)
  fix i assume "i < length p"
  then show "p ! i = q ! i"
    using rank_prefix_inj [OF assms(1,2) le_refl assms(3)] assms(1) by (simp add: inbox_def)
qed

lemma rank_all_low: "\<forall>j<i. p ! j = low ! j \<Longrightarrow> rank low upp i p = 0"
  by (simp add: rank_def)

lemma rank_all_upp: "\<forall>j<i. p ! j = upp ! j \<Longrightarrow> rank low upp i p = stride_at low upp i - 1"
proof (induction i)
  case 0 show ?case by simp
next
  case (Suc i)
  then show ?case by (simp add: rank_Suc stride_at_Suc algebra_simps)
qed

lemma rank_tail:
  assumes "\<forall>j. i < j \<and> j < n \<longrightarrow> q ! j = p ! j" "i < n"
  shows "rank low upp n q - rank low upp (Suc i) q = rank low upp n p - rank low upp (Suc i) p"
proof -
  have "k \<le> n \<Longrightarrow> Suc i \<le> k \<Longrightarrow>
        rank low upp k q - rank low upp (Suc i) q = rank low upp k p - rank low upp (Suc i) p" for k
  proof (induction k)
    case 0 then show ?case by simp
  next
    case (Suc k)
    show ?case
    proof (cases "k = i")
      case True then show ?thesis by simp
    next
      case False
      with Suc.prems have ik: "i < k" "k < n" by auto
      with assms(1) have "q ! k = p ! k" by simp
      with Suc ik show ?thesis by (simp add: rank_Suc)
    qed
  qed
  from this [of n] assms(2) show ?thesis by simp
qed

lemma lexstep_rank:
  assumes "lexstep n low upp i p q"
  shows "rank low upp n q = rank low upp n p + (q ! i - p ! i - 1) * stride_at low upp i + 1"
proof -
  from assms have i: "i < n" and lo: "\<forall>j<i. q ! j = low ! j" and up: "\<forall>j<i. p ! j = upp ! j"
    and tl: "\<forall>j. i < j \<and> j < n \<longrightarrow> q ! j = p ! j" by (auto simp: lexstep_def)
  have "rank low upp (Suc i) q = (q ! i - low ! i) * stride_at low upp i"
    using rank_all_low [OF lo] by (simp add: rank_Suc)
  moreover have "rank low upp (Suc i) p = stride_at low upp i - 1 + (p ! i - low ! i) * stride_at low upp i"
    using rank_all_upp [OF up] by (simp add: rank_Suc)
  ultimately show ?thesis using rank_tail [OF tl i, of low upp] by (simp add: algebra_simps)
qed

lemma lexstep_inbox:
  assumes "lexstep n low upp i p q" "inbox n low upp p"
  shows "inbox n low upp q"
  unfolding inbox_def
proof (intro conjI allI impI)
  show "length q = n" using assms by (simp add: lexstep_def)
next
  fix j assume j: "j < n"
  have ne: "low ! j \<le> upp ! j" using assms(2) j by (auto simp: inbox_def intro: order_trans)
  consider "j < i" | "j = i" | "i < j" by linarith
  then show "low ! j \<le> q ! j"
  proof cases
    case 1 then show ?thesis using assms(1) by (simp add: lexstep_def)
  next
    case 2 then show ?thesis using assms j by (auto simp: lexstep_def inbox_def)
  next
    case 3 then show ?thesis using assms j by (auto simp: lexstep_def inbox_def)
  qed
  consider "j < i" | "j = i" | "i < j" by linarith
  then show "q ! j \<le> upp ! j"
  proof cases
    case 1 then show ?thesis using assms(1) ne by (simp add: lexstep_def)
  next
    case 2 then show ?thesis using assms j by (auto simp: lexstep_def inbox_def)
  next
    case 3 then show ?thesis using assms j by (auto simp: lexstep_def inbox_def)
  qed
qed

lemma lexstep_rank_less:
  assumes "lexstep n low upp i p q" "inbox n low upp p"
  shows "rank low upp n p < rank low upp n q"
proof -
  have ne: "\<forall>j<n. low ! j \<le> upp ! j" using assms(2) by (auto simp: inbox_def intro: order_trans)
  have i: "i < n" "p ! i < q ! i" using assms(1) by (auto simp: lexstep_def)
  have "0 < stride_at low upp i" using stride_at_pos [OF ne, of i] i by simp
  then have "0 \<le> (q ! i - p ! i - 1) * stride_at low upp i" using i by simp
  then show ?thesis using lexstep_rank [OF assms(1)] by simp
qed

section \<open>The increment, axis by axis\<close>

lemma advance02_bounds [simp]:
  "m_low (advance02 mode axes it) = m_low it" "m_upp (advance02 mode axes it) = m_upp it"
  by (induction axes arbitrary: it) simp_all

lemma advance02_length [simp]: "length (m_cur (advance02 mode axes it)) = length (m_cur it)"
  by (induction axes arbitrary: it) simp_all

lemma advance02_found:
  assumes "i < n" "k \<le> i" "length (m_cur it) = n"
    "\<forall>j. k \<le> j \<and> j < i \<longrightarrow> m_cur it ! j = m_upp it ! j" "m_cur it ! i \<noteq> m_upp it ! i"
  shows "m_dim (advance02 mode [k ..< n] it) = m_dim it \<and>
         (\<forall>j<n. m_cur (advance02 mode [k ..< n] it) ! j =
            (if k \<le> j \<and> j < i then m_low it ! j
             else if j = i then (if mode = CUBE then m_cur it ! i + 1 else m_upp it ! i)
             else m_cur it ! j))"
  using assms(2-)
proof (induction "i - k" arbitrary: k it)
  case 0
  then have k: "k = i" by simp
  have u: "[k ..< n] = i # [Suc i ..< n]" using assms(1) k by (simp add: upt_conv_Cons)
  show ?case unfolding u using "0.prems" k by (auto simp: nth_list_update)
next
  case (Suc x)
  then have k: "k < i" by simp
  then have u: "[k ..< n] = k # [Suc k ..< n]" using assms(1) by (simp add: upt_conv_Cons)
  let ?it = "it\<lparr> m_cur := (m_cur it)[k := m_low it ! k] \<rparr>"
  have ck: "m_cur it ! k = m_upp it ! k" using Suc.prems k by simp
  have st: "advance02 mode [k ..< n] it = advance02 mode [Suc k ..< n] ?it"
    unfolding u using ck by simp
  have ih: "m_dim (advance02 mode [Suc k ..< n] ?it) = m_dim ?it \<and>
         (\<forall>j<n. m_cur (advance02 mode [Suc k ..< n] ?it) ! j =
            (if Suc k \<le> j \<and> j < i then m_low ?it ! j
             else if j = i then (if mode = CUBE then m_cur ?it ! i + 1 else m_upp ?it ! i)
             else m_cur ?it ! j))"
  proof (rule Suc.hyps(1))
    show "x = i - Suc k" using Suc.hyps(2) by simp
    show "Suc k \<le> i" using k by simp
    show "length (m_cur ?it) = n" using Suc.prems by simp
    show "\<forall>j. Suc k \<le> j \<and> j < i \<longrightarrow> m_cur ?it ! j = m_upp ?it ! j"
      using Suc.prems by (simp add: nth_list_update)
    show "m_cur ?it ! i \<noteq> m_upp ?it ! i" using Suc.prems k by (simp add: nth_list_update)
  qed
  have kn: "k < length (m_cur it)" using k assms(1) Suc.prems by simp
  show ?case unfolding st using ih k kn by (auto simp: nth_list_update)
qed

lemma advance02_none:
  assumes "k \<le> n" "\<forall>j. k \<le> j \<and> j < n \<longrightarrow> m_cur it ! j = m_upp it ! j"
  shows "m_dim (advance02 mode [k ..< n] it) = 0"
  using assms
proof (induction "n - k" arbitrary: k it)
  case 0
  then show ?case by simp
next
  case (Suc x)
  then have k: "k < n" by simp
  then have u: "[k ..< n] = k # [Suc k ..< n]" by (simp add: upt_conv_Cons)
  let ?it = "it\<lparr> m_cur := (m_cur it)[k := m_low it ! k] \<rparr>"
  have "m_dim (advance02 mode [Suc k ..< n] ?it) = 0"
  proof (rule Suc.hyps(1))
    show "x = n - Suc k" using Suc.hyps(2) by simp
    show "Suc k \<le> n" using k by simp
    show "\<forall>j. Suc k \<le> j \<and> j < n \<longrightarrow> m_cur ?it ! j = m_upp ?it ! j"
      using Suc.prems by (simp add: nth_list_update)
  qed
  then show ?case unfolding u using Suc.prems k by simp
qed

lemma advance1_found:
  assumes "i < n" "k \<le> i"
    "\<forall>j. k \<le> j \<and> j < i \<longrightarrow> m_cur it ! j = m_upp it ! j" "m_cur it ! i \<noteq> m_upp it ! i"
  shows "advance1 d [k ..< n] it = advance1_at d i it"
  using assms(2-)
proof (induction "i - k" arbitrary: k)
  case 0
  then have k: "k = i" by simp
  have u: "[k ..< n] = i # [Suc i ..< n]" using assms(1) k by (simp add: upt_conv_Cons)
  show ?case unfolding u using "0.prems" by simp
next
  case (Suc x)
  then have k: "k < i" by simp
  then have u: "[k ..< n] = k # [Suc k ..< n]" using assms(1) by (simp add: upt_conv_Cons)
  have "advance1 d [Suc k ..< n] it = advance1_at d i it"
    by (rule Suc.hyps(1)) (use Suc.hyps(2) Suc.prems k in auto)
  then show ?case unfolding u using Suc.prems k by simp
qed

lemma advance1_none:
  assumes "k \<le> n" "\<forall>j. k \<le> j \<and> j < n \<longrightarrow> m_cur it ! j = m_upp it ! j"
  shows "advance1 d [k ..< n] it = it\<lparr> m_dim := 0 \<rparr>"
  using assms
proof (induction "n - k" arbitrary: k)
  case 0
  then show ?case by simp
next
  case (Suc x)
  then have k: "k < n" by simp
  then have u: "[k ..< n] = k # [Suc k ..< n]" by (simp add: upt_conv_Cons)
  have "advance1 d [Suc k ..< n] it = it\<lparr> m_dim := 0 \<rparr>"
    by (rule Suc.hyps(1)) (use Suc.hyps(2) Suc.prems k in auto)
  then show ?case unfolding u using Suc.prems k by simp
qed

lemma fold_lows:
  "i \<le> length c \<Longrightarrow>
   length (fold (\<lambda>k c. c[k := low ! k]) (rev [0 ..< i]) c) = length c \<and>
   (\<forall>j<length c. fold (\<lambda>k c. c[k := low ! k]) (rev [0 ..< i]) c ! j = (if j < i then low ! j else c ! j))"
proof (induction i arbitrary: c)
  case 0
  show ?case by simp
next
  case (Suc i)
  have "i \<le> length (c[i := low ! i])" using Suc.prems by simp
  from Suc.IH [OF this] Suc.prems show ?case by (auto simp: nth_list_update less_Suc_eq)
qed

lemma fold_count_ge: "c \<le> fold (\<lambda>j c. if P j then c + 1 else c) xs (c::nat)"
proof (induction xs arbitrary: c)
  case Nil show ?case by simp
next
  case (Cons x xs)
  have "c \<le> (if P x then c + 1 else c)" by simp
  also have "\<dots> \<le> fold (\<lambda>j c. if P j then c + 1 else c) xs (if P x then c + 1 else c)"
    by (rule Cons.IH)
  finally show ?case by simp
qed

lemma fold_count_eq:
  "fold (\<lambda>j c. if P j then c + 1 else c) xs (c::nat) = c \<longleftrightarrow> (\<forall>j\<in>set xs. \<not> P j)"
proof (induction xs arbitrary: c)
  case Nil show ?case by simp
next
  case (Cons x xs)
  show ?case
  proof (cases "P x")
    case True
    have "c + 1 \<le> fold (\<lambda>j c. if P j then c + 1 else c) xs (c + 1)" by (rule fold_count_ge)
    with True show ?thesis by simp
  next
    case False
    with Cons.IH [of c] show ?thesis by simp
  qed
qed

lemma count_c_one:
  "count_c d i it = 1 \<longleftrightarrow>
   i = 0 \<and> (\<forall>j. 1 \<le> j \<and> j < loop_end d it \<longrightarrow> m_cur it ! j \<noteq> m_low it ! j \<and> m_cur it ! j \<noteq> m_upp it ! j)"
proof (cases "i = 0")
  case True
  then show ?thesis
    unfolding count_c_def using fold_count_eq [of "\<lambda>j. m_cur it ! j = m_low it ! j \<or> m_cur it ! j = m_upp it ! j" "[1 ..< loop_end d it]" 1]
    by auto
next
  case False
  have "i + 1 \<le> count_c d i it" unfolding count_c_def by (rule fold_count_ge)
  with False show ?thesis by simp
qed

lemma advance1_at_bounds [simp]:
  "m_low (advance1_at d i it) = m_low it" "m_upp (advance1_at d i it) = m_upp it"
  "m_dim (advance1_at d i it) = m_dim it"
  by (simp_all add: advance1_at_def Let_def)

lemma advance1_bounds [simp]:
  "m_low (advance1 d axes it) = m_low it" "m_upp (advance1 d axes it) = m_upp it"
  by (induction axes) simp_all

lemma incr_bounds [simp]:
  "m_low (incr mode d it) = m_low it" "m_upp (incr mode d it) = m_upp it"
  by (simp_all add: incr_def split: gsGridIteratorMode.splits)

lemma funpow_incr_bounds [simp]:
  "m_low ((incr mode d ^^ k) it) = m_low it" "m_upp ((incr mode d ^^ k) it) = m_upp it"
  by (induction k) simp_all

section \<open>One increment of a live iterator\<close>

lemma live_loop_end: "live d n low upp it \<Longrightarrow> loop_end d it = n"
  by (auto simp: live_def loop_end_def)

lemma first_axis:
  assumes "length p = n" "length upp = n" "p \<noteq> upp"
  shows "\<exists>i<n. p ! i \<noteq> upp ! i \<and> (\<forall>j<i. p ! j = upp ! j)"
proof -
  from assms have ex: "\<exists>i. i < n \<and> p ! i \<noteq> upp ! i" by (auto simp: list_eq_iff_nth_eq)
  define i where "i = (LEAST i. i < n \<and> p ! i \<noteq> upp ! i)"
  have 1: "i < n \<and> p ! i \<noteq> upp ! i" unfolding i_def using ex by (rule LeastI_ex)
  have 2: "p ! j = upp ! j" if "j < i" for j
  proof (rule ccontr)
    assume "p ! j \<noteq> upp ! j"
    with that 1 have "j < n \<and> p ! j \<noteq> upp ! j" by simp
    then have "i \<le> j" unfolding i_def by (rule Least_le)
    with that show False by simp
  qed
  from 1 2 show ?thesis by blast
qed

lemma incr_done:
  assumes "live d n low upp it" "m_cur it = upp"
  shows "\<not> hasNext (incr mode d it)"
proof -
  have le: "loop_end d it = n" using assms(1) by (rule live_loop_end)
  have u: "m_upp it = upp" using assms(1) by (simp add: live_def)
  have a: "\<forall>j. 0 \<le> j \<and> j < n \<longrightarrow> m_cur it ! j = m_upp it ! j" using assms(2) u by simp
  have "m_dim (advance02 mode [0 ..< n] it) = 0" by (rule advance02_none [OF _ a]) simp
  moreover have "advance1 d [0 ..< n] it = it\<lparr> m_dim := 0 \<rparr>" by (rule advance1_none [OF _ a]) simp
  ultimately show ?thesis by (cases mode) (simp_all add: incr_def le hasNext_def)
qed

lemma incr02_step:
  assumes "live d n low upp it" "m_cur it \<noteq> upp" "mode = CUBE \<or> mode = VERTEX"
  shows "\<exists>i. lexstep n low upp i (m_cur it) (m_cur (incr mode d it)) \<and>
              live d n low upp (incr mode d it) \<and>
              m_cur (incr mode d it) ! i = (if mode = CUBE then m_cur it ! i + 1 else upp ! i)"
proof -
  have le: "loop_end d it = n" using assms(1) by (rule live_loop_end)
  have f: "m_low it = low" "m_upp it = upp" "m_dim it = n" "length upp = n" "length low = n"
    "0 < n" "d = None \<or> d = Some n"
    and ib: "inbox n low upp (m_cur it)" using assms(1) by (simp_all add: live_def)
  have len: "length (m_cur it) = n" using ib by (simp add: inbox_def)
  from first_axis [OF len f(4) assms(2)] obtain i where
    i: "i < n" "m_cur it ! i \<noteq> upp ! i" "\<forall>j<i. m_cur it ! j = upp ! j" by blast
  let ?r = "advance02 mode [0 ..< n] it"
  have r: "incr mode d it = ?r" using assms(3) by (auto simp: incr_def le)
  have ch: "m_dim ?r = m_dim it \<and>
         (\<forall>j<n. m_cur ?r ! j =
            (if 0 \<le> j \<and> j < i then m_low it ! j
             else if j = i then (if mode = CUBE then m_cur it ! i + 1 else m_upp it ! i)
             else m_cur it ! j))"
    by (rule advance02_found [OF i(1) _ len]) (use i f in auto)
  have lenr: "length (m_cur ?r) = n" using len by simp
  have bi: "low ! i \<le> m_cur it ! i" "m_cur it ! i \<le> upp ! i" using ib i(1) by (auto simp: inbox_def)
  have ls: "lexstep n low upp i (m_cur it) (m_cur ?r)"
    unfolding lexstep_def using ch i lenr f bi by auto
  have ib': "inbox n low upp (m_cur ?r)" by (rule lexstep_inbox [OF ls ib])
  have lv: "live d n low upp ?r" unfolding live_def using f ib' ch by simp
  have v: "m_cur ?r ! i = (if mode = CUBE then m_cur it ! i + 1 else upp ! i)"
    using ch i(1) f by simp
  show ?thesis unfolding r using ls lv v by blast
qed

lemma incr1_step:
  assumes "live d n low upp it" "m_cur it \<noteq> upp"
  shows "\<exists>i. lexstep n low upp i (m_cur it) (m_cur (incr BDR d it)) \<and>
              live d n low upp (incr BDR d it) \<and>
              m_cur (incr BDR d it) ! i =
                (if i = 0 \<and> m_cur it ! 0 = low ! 0 \<and>
                    (\<forall>j. 1 \<le> j \<and> j < n \<longrightarrow> m_cur it ! j \<noteq> low ! j \<and> m_cur it ! j \<noteq> upp ! j)
                 then upp ! 0 else m_cur it ! i + 1)"
proof -
  have le: "loop_end d it = n" using assms(1) by (rule live_loop_end)
  have f: "m_low it = low" "m_upp it = upp" "m_dim it = n" "length upp = n" "length low = n"
    "0 < n" "d = None \<or> d = Some n"
    and ib: "inbox n low upp (m_cur it)" using assms(1) by (simp_all add: live_def)
  have len: "length (m_cur it) = n" using ib by (simp add: inbox_def)
  from first_axis [OF len f(4) assms(2)] obtain i where
    i: "i < n" "m_cur it ! i \<noteq> upp ! i" "\<forall>j<i. m_cur it ! j = upp ! j" by blast
  let ?jump = "i = 0 \<and> m_cur it ! 0 = low ! 0 \<and>
      (\<forall>j. 1 \<le> j \<and> j < n \<longrightarrow> m_cur it ! j \<noteq> low ! j \<and> m_cur it ! j \<noteq> upp ! j)"
  let ?v = "if ?jump then upp ! 0 else m_cur it ! i + 1"
  let ?r = "advance1_at d i it"
  have r: "incr BDR d it = ?r"
    unfolding incr_def le using advance1_found [OF i(1), of 0 it d] i f by simp
  have cond: "(m_cur it ! i = m_low it ! i \<and> (i + 1 \<noteq> m_dim it \<or> m_dim it = 1)) \<and> count_c d i it = 1
              \<longleftrightarrow> ?jump"
    unfolding count_c_one le f by auto
  define cur1 where "cur1 = (m_cur it)[i := ?v]"
  have c1: "(if m_cur it ! i = m_low it ! i \<and> (i + 1 \<noteq> m_dim it \<or> m_dim it = 1)
         then (if count_c d i it = 1
               then (m_cur it)[i := m_upp it ! i]
               else (m_cur it)[i := m_cur it ! i + 1])
         else (m_cur it)[i := m_cur it ! i + 1]) = cur1"
    unfolding cur1_def using cond f by (cases ?jump) auto
  have cr: "m_cur ?r = fold (\<lambda>k c. c[k := low ! k]) (rev [0 ..< i]) cur1"
    unfolding advance1_at_def Let_def c1 by (simp add: f)
  have l1: "length cur1 = n" using len by (simp add: cur1_def)
  have fl: "length (m_cur ?r) = length cur1 \<and>
     (\<forall>j<length cur1. m_cur ?r ! j = (if j < i then low ! j else cur1 ! j))"
    unfolding cr by (rule fold_lows) (use i l1 in simp)
  have bi: "low ! i \<le> m_cur it ! i" "m_cur it ! i \<le> upp ! i" using ib i(1) by (auto simp: inbox_def)
  have vi: "m_cur ?r ! i = ?v" using fl l1 i(1) len by (simp add: cur1_def)
  have ls: "lexstep n low upp i (m_cur it) (m_cur ?r)"
    unfolding lexstep_def
  proof (intro conjI allI impI)
    show "i < n" by (rule i(1))
    show "length (m_cur ?r) = n" using fl l1 by simp
    show "m_cur it ! j = upp ! j" if "j < i" for j using that i by simp
    show "m_cur ?r ! j = low ! j" if "j < i" for j using that fl l1 i(1) by simp
    show "m_cur it ! i < m_cur ?r ! i" unfolding vi using bi i(2) by auto
    show "m_cur ?r ! i \<le> upp ! i" unfolding vi using bi i(2) by auto
    show "m_cur ?r ! j = m_cur it ! j" if "i < j \<and> j < n" for j
      using that fl l1 len by (simp add: cur1_def)
  qed
  have ib': "inbox n low upp (m_cur ?r)" by (rule lexstep_inbox [OF ls ib])
  have lv: "live d n low upp ?r" unfolding live_def using f ib' by simp
  show ?thesis unfolding r using ls lv vi by blast
qed

section \<open>The walk of a live iterator\<close>

lemma live_hasNext: "live d n low upp it \<Longrightarrow> hasNext it"
  by (simp add: live_def hasNext_def)

lemma incr_step:
  assumes "live d n low upp it" "m_cur it \<noteq> upp" "mode \<noteq> CWISE"
  shows "live d n low upp (incr mode d it) \<and>
         rank low upp n (m_cur it) < rank low upp n (m_cur (incr mode d it))"
proof -
  have ib: "inbox n low upp (m_cur it)" using assms(1) by (simp add: live_def)
  have "\<exists>i. lexstep n low upp i (m_cur it) (m_cur (incr mode d it)) \<and> live d n low upp (incr mode d it)"
  proof (cases "mode = BDR")
    case True
    with incr1_step [OF assms(1,2)] show ?thesis by blast
  next
    case False
    with assms(3) have "mode = CUBE \<or> mode = VERTEX" by (cases mode) auto
    from incr02_step [OF assms(1,2) this] show ?thesis by blast
  qed
  then show ?thesis using lexstep_rank_less [OF _ ib] by blast
qed

lemma rank_upp: "rank low upp n upp = stride_at low upp n - 1"
  by (rule rank_all_upp) simp

lemma inbox_upp: "live d n low upp it \<Longrightarrow> inbox n low upp upp"
  by (auto simp: live_def inbox_def intro: order_trans)

lemma inbox_low: "live d n low upp it \<Longrightarrow> inbox n low upp low"
  by (auto simp: live_def inbox_def intro: order_trans)

lemma live_rank_less: "live d n low upp it \<Longrightarrow> rank low upp n (m_cur it) < stride_at low upp n"
  using rank_bounds [of n low upp "m_cur it" n] by (simp add: live_def)

lemma walk_prefix:
  assumes "live d n low upp it" "mode \<noteq> CWISE"
    "\<forall>j<k. m_cur ((incr mode d ^^ j) it) \<noteq> upp"
  shows "live d n low upp ((incr mode d ^^ k) it) \<and>
         rank low upp n (m_cur it) + int k \<le> rank low upp n (m_cur ((incr mode d ^^ k) it))"
  using assms(3)
proof (induction k)
  case 0
  show ?case using assms(1) by simp
next
  case (Suc k)
  then have ih: "live d n low upp ((incr mode d ^^ k) it)"
    "rank low upp n (m_cur it) + int k \<le> rank low upp n (m_cur ((incr mode d ^^ k) it))"
    and ne: "m_cur ((incr mode d ^^ k) it) \<noteq> upp" by auto
  from incr_step [OF ih(1) ne assms(2)] ih(2) show ?case by simp
qed

lemma walk_reaches_upp:
  assumes "live d n low upp it" "mode \<noteq> CWISE"
  shows "\<exists>k. m_cur ((incr mode d ^^ k) it) = upp"
proof (rule ccontr)
  assume "\<not> ?thesis"
  then have no: "\<forall>j<k. m_cur ((incr mode d ^^ j) it) \<noteq> upp" for k by simp
  define k where "k = nat (stride_at low upp n)"
  from walk_prefix [OF assms no, of k]
  have lv: "live d n low upp ((incr mode d ^^ k) it)"
    and rk: "rank low upp n (m_cur it) + int k \<le> rank low upp n (m_cur ((incr mode d ^^ k) it))" by auto
  have "0 \<le> rank low upp n (m_cur it)"
    using rank_bounds [of n low upp "m_cur it" n] assms(1) by (simp add: live_def)
  with rk live_rank_less [OF lv] show False by (simp add: k_def split: if_splits)
qed

text \<open>
  The walk from a live iterator: after some number \<open>m\<close> of increments the current point is
  the upper corner, the iterator is live up to there, and the next increment exhausts it.
\<close>

lemma walk:
  assumes "live d n low upp it" "mode \<noteq> CWISE"
  shows "\<exists>m. (\<forall>k\<le>m. live d n low upp ((incr mode d ^^ k) it)) \<and>
              (\<forall>k<m. m_cur ((incr mode d ^^ k) it) \<noteq> upp) \<and>
              m_cur ((incr mode d ^^ m) it) = upp \<and>
              \<not> hasNext ((incr mode d ^^ Suc m) it) \<and>
              rank low upp n (m_cur it) + int m < stride_at low upp n"
proof -
  define m where "m = (LEAST k. m_cur ((incr mode d ^^ k) it) = upp)"
  have 1: "m_cur ((incr mode d ^^ m) it) = upp"
    unfolding m_def using walk_reaches_upp [OF assms] by (rule LeastI_ex)
  have 2: "m_cur ((incr mode d ^^ k) it) \<noteq> upp" if "k < m" for k
    using that not_less_Least unfolding m_def by blast
  have 3: "live d n low upp ((incr mode d ^^ k) it)" if "k \<le> m" for k
    using walk_prefix [OF assms, of k] 2 that by simp
  have 4: "\<not> hasNext ((incr mode d ^^ Suc m) it)"
    using incr_done [OF 3 [OF le_refl] 1] by simp
  have "rank low upp n (m_cur it) + int m \<le> rank low upp n (m_cur ((incr mode d ^^ m) it))"
    using walk_prefix [OF assms, of m] 2 by simp
  with live_rank_less [OF 3 [OF le_refl]]
  have 5: "rank low upp n (m_cur it) + int m < stride_at low upp n" by simp
  from 1 2 3 4 5 show ?thesis by blast
qed

section \<open>The queries in terms of strides and ranks\<close>

lemma prod_list_nth: "prod_list xs = (\<Prod>i<length xs. xs ! i)" for xs :: "int list"
proof (induction xs rule: rev_induct)
  case Nil
  show ?case by simp
next
  case (snoc x xs)
  have "(\<Prod>i<length xs. (xs @ [x]) ! i) = (\<Prod>i<length xs. xs ! i)"
    by (intro prod.cong) (simp_all add: nth_append)
  with snoc show ?case by simp
qed

lemma prod_list_extents:
  assumes "length low = n" "length upp = n"
  shows "prod_list (map (\<lambda>x. x + 1) (map2 (-) upp low)) = stride_at low upp n"
proof -
  have "prod_list (map (\<lambda>x. x + 1) (map2 (-) upp low))
        = (\<Prod>i<n. map (\<lambda>x. x + 1) (map2 (-) upp low) ! i)"
    using assms by (simp add: prod_list_nth)
  also have "\<dots> = (\<Prod>i<n. upp ! i - low ! i + 1)"
    using assms by (intro prod.cong) simp_all
  finally show ?thesis by (simp add: stride_at_def)
qed

lemma strides_fold:
  assumes "m \<le> n" "0 < m" "length res0 = n" "res0 ! 0 = 1"
  shows "length (fold (\<lambda>i res. res[i := res ! (i - 1) * (upp ! (i - 1) - low ! (i - 1) + 1)]) [1 ..< m] res0) = n \<and>
         (\<forall>k<m. fold (\<lambda>i res. res[i := res ! (i - 1) * (upp ! (i - 1) - low ! (i - 1) + 1)]) [1 ..< m] res0 ! k
                 = stride_at low upp k)"
  using assms(1,2)
proof (induction m)
  case 0 then show ?case by simp
next
  case (Suc m)
  show ?case
  proof (cases "m = 0")
    case True
    then show ?thesis using assms(3,4) by simp
  next
    case False
    then have u: "[1 ..< Suc m] = [1 ..< m] @ [m]" by simp
    let ?f = "fold (\<lambda>i res. res[i := res ! (i - 1) * (upp ! (i - 1) - low ! (i - 1) + 1)]) [1 ..< m] res0"
    have ih: "length ?f = n" "\<forall>k<m. ?f ! k = stride_at low upp k"
      using Suc False by auto
    have m1: "?f ! (m - 1) = stride_at low upp (m - 1)" using ih(2) False by simp
    have s: "stride_at low upp m = stride_at low upp (m - 1) * (upp ! (m - 1) - low ! (m - 1) + 1)"
      using stride_at_Suc [of low upp "m - 1"] False by simp
    show ?thesis unfolding u fold_append comp_def
      using ih m1 s Suc.prems by (auto simp: nth_list_update less_Suc_eq)
  qed
qed

lemma strides_nth:
  assumes "m_low it = low" "m_upp it = upp" "length low = n" "0 < n"
  shows "length (strides it) = n \<and> (\<forall>k<n. strides it ! k = stride_at low upp k)"
  unfolding strides_def assms(1,2,3)
  by (rule strides_fold) (use assms in simp_all)

lemma flat_index_rank:
  assumes "m_low it = low" "m_upp it = upp" "length low = n" "0 < n" "length p = n"
  shows "flat_index it p = rank low upp n p"
proof -
  have s: "length (strides it) = n" "\<forall>k<n. strides it ! k = stride_at low upp k"
    using strides_nth [OF assms(1-4)] by auto
  have "flat_index it p = (\<Sum>i = 0 ..< n. map2 (*) (map2 (-) p low) (strides it) ! i)"
    unfolding flat_index_def dot_def using assms s(1) by (simp add: sum_list_sum_nth)
  also have "\<dots> = (\<Sum>i = 0 ..< n. (p ! i - low ! i) * stride_at low upp i)"
    using assms s by (intro sum.cong) simp_all
  finally show ?thesis by (simp add: rank_def atLeast0LessThan)
qed

section \<open>Construction\<close>

lemma reset3_live:
  assumes "reset3 a b opn = Inr it" "a \<noteq> []" "list_all2 (\<le>) (m_low it) (m_upp it)"
    "d = None \<or> d = Some (length a)"
  shows "live d (length a) (m_low it) (m_upp it) it \<and> m_cur it = m_low it \<and> m_low it = a"
proof -
  from assms(1) have l: "length a = length b" by (auto simp: reset3_def split: if_splits)
  define upp where "upp = (if opn then map (\<lambda>x. x - 1) b else b)"
  from assms(1) l have it: "it = \<lparr> m_low = a, m_upp = upp, m_cur = a,
                    m_dim = (if list_all2 (\<le>) a upp then length a else 0) \<rparr>"
    by (simp add: reset3_def upp_def Let_def)
  have lu: "length upp = length a" using l by (simp add: upp_def)
  have ne: "list_all2 (\<le>) a upp" using assms(3) it by simp
  then have "\<forall>i<length a. a ! i \<le> upp ! i" by (simp add: list_all2_conv_all_nth)
  then show ?thesis using assms(2,4) lu ne by (simp add: it live_def inbox_def)
qed

lemma points_of_walk:
  assumes "\<forall>k\<le>m. live d n low upp ((incr mode d ^^ k) it)"
    "\<not> hasNext ((incr mode d ^^ Suc m) it)" "Suc m \<le> fuel"
  shows "points mode d fuel it
         = Some (map (\<lambda>k. deref ((incr mode d ^^ k) it)) [0 ..< Suc m], (incr mode d ^^ Suc m) it)"
  unfolding points_def
proof (rule traverse_complete)
  show "\<forall>k<Suc m. hasNext ((incr mode d ^^ k) it)"
    using assms(1) live_hasNext by (auto simp: less_Suc_eq_le)
  show "\<not> hasNext ((incr mode d ^^ Suc m) it)" by (rule assms(2))
  show "Suc m \<le> fuel" by (rule assms(3))
qed

section \<open>The full box (mode 0)\<close>

lemma cube_rank:
  assumes "live d n low upp it" "\<forall>j<k. m_cur ((incr CUBE d ^^ j) it) \<noteq> upp"
  shows "rank low upp n (m_cur ((incr CUBE d ^^ k) it)) = rank low upp n (m_cur it) + int k"
  using assms(2)
proof (induction k)
  case 0
  show ?case by simp
next
  case (Suc k)
  let ?s = "(incr CUBE d ^^ k) it"
  have ih: "rank low upp n (m_cur ?s) = rank low upp n (m_cur it) + int k" using Suc by simp
  have ne: "m_cur ?s \<noteq> upp" using Suc.prems by simp
  have lv: "live d n low upp ?s" using walk_prefix [OF assms(1), of CUBE k] Suc.prems by simp
  from incr02_step [OF lv ne, of CUBE] obtain i where
    ls: "lexstep n low upp i (m_cur ?s) (m_cur (incr CUBE d ?s))"
    and v: "m_cur (incr CUBE d ?s) ! i = m_cur ?s ! i + 1" by auto
  from lexstep_rank [OF ls] v ih show ?case by simp
qed

text \<open>
  From the lower corner the walk in mode 0 takes exactly \<open>stride_at low upp n\<close> points,
  the \<open>k\<close>-th of rank \<open>k\<close>.
\<close>

lemma cube_walk:
  assumes "live d n low upp it" "m_cur it = low" "nat (stride_at low upp n) \<le> fuel"
  shows "\<exists>ps fin. points CUBE d fuel it = Some (ps, fin) \<and>
           int (length ps) = stride_at low upp n \<and> \<not> hasNext fin \<and>
           (\<forall>k<length ps. inbox n low upp (ps ! k) \<and> rank low upp n (ps ! k) = int k)"
proof -
  from walk [OF assms(1), of CUBE] obtain m where
    lv: "\<forall>k\<le>m. live d n low upp ((incr CUBE d ^^ k) it)"
    and ne: "\<forall>k<m. m_cur ((incr CUBE d ^^ k) it) \<noteq> upp"
    and up: "m_cur ((incr CUBE d ^^ m) it) = upp"
    and dn: "\<not> hasNext ((incr CUBE d ^^ Suc m) it)" by auto
  have r0: "rank low upp n (m_cur it) = 0" unfolding assms(2) by (rule rank_all_low) simp
  have rk: "rank low upp n (m_cur ((incr CUBE d ^^ k) it)) = int k" if "k \<le> m" for k
    using cube_rank [OF assms(1), of k] ne that r0 by simp
  from rk [OF le_refl] up have m: "int m = stride_at low upp n - 1" by (simp add: rank_upp)
  then have fu: "Suc m \<le> fuel" using assms(3) by linarith
  let ?ps = "map (\<lambda>k. deref ((incr CUBE d ^^ k) it)) [0 ..< Suc m]"
  have p: "points CUBE d fuel it = Some (?ps, (incr CUBE d ^^ Suc m) it)"
    by (rule points_of_walk [OF lv dn fu])
  have len: "int (length ?ps) = stride_at low upp n" using m by simp
  have each: "\<forall>k<length ?ps. inbox n low upp (?ps ! k) \<and> rank low upp n (?ps ! k) = int k"
  proof (intro allI impI)
    fix k assume "k < length ?ps"
    then have k: "k \<le> m" by simp
    then have nth: "?ps ! k = m_cur ((incr CUBE d ^^ k) it)"
      using nth_map_upt [of k "Suc m" 0 "\<lambda>k. deref ((incr CUBE d ^^ k) it)"] by (simp add: deref_def)
    show "inbox n low upp (?ps ! k) \<and> rank low upp n (?ps ! k) = int k"
      unfolding nth using lv k rk by (simp add: live_def)
  qed
  from p len dn each show ?thesis by blast
qed

text \<open>
  Claim C5. For every non-empty box (the stored bounds satisfy \<open>low[i] \<le> upp[i]\<close> on
  every axis) of dimension at least 1, the full traversal of the mode-0 iterator returns,
  given fuel for that many increments, and emits exactly \<open>prod (upp[i] - low[i] + 1)\<close>
  points; \<open>numPoints()\<close> returns this count.
\<close>

theorem cube_count:
  assumes "gsGridIterator_ab a b opn = Inr it" "a \<noteq> []"
    "list_all2 (\<le>) (m_low it) (m_upp it)" "d = None \<or> d = Some (length a)"
    "nat (\<Prod>i<length a. m_upp it ! i - m_low it ! i + 1) \<le> fuel"
  shows "\<exists>ps fin. points CUBE d fuel it = Some (ps, fin) \<and> \<not> hasNext fin \<and>
           int (length ps) = (\<Prod>i<length a. m_upp it ! i - m_low it ! i + 1) \<and>
           numPoints CUBE it = Inr (int (length ps))"
proof -
  from assms(1) have r: "reset3 a b opn = Inr it" by (simp add: gsGridIterator_ab_def)
  from reset3_live [OF r assms(2,3,4)]
  have lv: "live d (length a) (m_low it) (m_upp it) it" and c: "m_cur it = m_low it" by auto
  have len: "length (m_low it) = length a" "length (m_upp it) = length a"
    using lv by (simp_all add: live_def)
  have fu: "nat (stride_at (m_low it) (m_upp it) (length a)) \<le> fuel"
    using assms(5) by (simp add: stride_at_def)
  from cube_walk [OF lv c fu] obtain ps fin where
    p: "points CUBE d fuel it = Some (ps, fin)" "\<not> hasNext fin"
      "int (length ps) = stride_at (m_low it) (m_upp it) (length a)" by blast
  have "numPoints CUBE it = Inr (stride_at (m_low it) (m_upp it) (length a))"
    using prod_list_extents [OF len] by (simp add: numPoints_def)
  with p show ?thesis by (simp add: stride_at_def)
qed

theorem cube_count_witness:
  "gsGridIterator_ab [0, 0] [3, 3] True = Inr \<lparr> m_low = [0, 0], m_upp = [2, 2], m_cur = [0, 0], m_dim = 2 \<rparr> \<and>
   (\<exists>ps fin. points CUBE None 9 \<lparr> m_low = [0, 0], m_upp = [2, 2], m_cur = [0, 0], m_dim = 2 \<rparr> = Some (ps, fin) \<and>
      \<not> hasNext fin \<and> int (length ps) = 9 \<and>
      numPoints CUBE \<lparr> m_low = [0, 0], m_upp = [2, 2], m_cur = [0, 0], m_dim = 2 \<rparr> = Inr (int (length ps)))"
proof -
  let ?it = "\<lparr> m_low = [0, 0], m_upp = [2, 2], m_cur = [0, 0], m_dim = 2 \<rparr>"
  have h: "gsGridIterator_ab [0, 0] [3, 3] True = Inr ?it"
    by (simp add: gsGridIterator_ab_def reset3_def)
  have n: "nat (\<Prod>i<length [0, 0 :: int]. m_upp ?it ! i - m_low ?it ! i + 1) \<le> 9" by simp
  from cube_count [OF h _ _ _ n, of None] h show ?thesis by simp
qed

text \<open>
  Claim C7. For every non-empty box of dimension at least 1 and the mode-0 iterator,
  \<open>strides()\<close> is the vector \<open>s\<close> with \<open>s[0] = 1\<close> and
  \<open>s[k] = s[k-1] * (upp[k-1] - low[k-1] + 1)\<close>. The full traversal returns and emits
  \<open>prod (upp[i] - low[i] + 1)\<close> points, from \<open>low\<close> to \<open>upp\<close>, which are exactly the
  lattice points of the box; the \<open>k\<close>-th emitted point has the flat index
  \<open>dot(p - low, s) = k\<close>, so the flat index runs 0, 1, 2, ... and grows by exactly 1 from
  each point to the next.
\<close>

theorem cube_stride_law:
  assumes "gsGridIterator_ab a b opn = Inr it" "a \<noteq> []"
    "list_all2 (\<le>) (m_low it) (m_upp it)" "d = None \<or> d = Some (length a)"
    "nat (\<Prod>i<length a. m_upp it ! i - m_low it ! i + 1) \<le> fuel"
  shows "length (strides it) = length a \<and> strides it ! 0 = 1 \<and>
         (\<forall>k. 0 < k \<and> k < length a \<longrightarrow>
              strides it ! k = strides it ! (k - 1) * (m_upp it ! (k - 1) - m_low it ! (k - 1) + 1)) \<and>
         (\<exists>ps fin. points CUBE d fuel it = Some (ps, fin) \<and> \<not> hasNext fin \<and>
            int (length ps) = (\<Prod>i<length a. m_upp it ! i - m_low it ! i + 1) \<and>
            hd ps = m_low it \<and> last ps = m_upp it \<and>
            set ps = {p. length p = length a \<and>
                         (\<forall>i<length a. m_low it ! i \<le> p ! i \<and> p ! i \<le> m_upp it ! i)} \<and>
            (\<forall>k<length ps. flat_index it (ps ! k) = int k) \<and>
            map (flat_index it) ps = map int [0 ..< length ps] \<and>
            (\<forall>k. Suc k < length ps \<longrightarrow> flat_index it (ps ! Suc k) = flat_index it (ps ! k) + 1))"
proof -
  let ?n = "length a" and ?low = "m_low it" and ?upp = "m_upp it"
  from assms(1) have r: "reset3 a b opn = Inr it" by (simp add: gsGridIterator_ab_def)
  from reset3_live [OF r assms(2,3,4)]
  have lv: "live d ?n ?low ?upp it" and c: "m_cur it = ?low" by auto
  have len: "length ?low = ?n" "length ?upp = ?n" and pos: "0 < ?n"
    using lv by (simp_all add: live_def)
  have st: "length (strides it) = ?n"
    "\<forall>k<?n. strides it ! k = stride_at ?low ?upp k"
    using strides_nth [OF refl refl len(1) pos] by auto
  have s0: "strides it ! 0 = 1" using st(2) pos by simp
  have sk: "strides it ! k = strides it ! (k - 1) * (?upp ! (k - 1) - ?low ! (k - 1) + 1)"
    if "0 < k \<and> k < ?n" for k
  proof -
    from that obtain j where j: "k = Suc j" by (cases k) auto
    with that st(2) show ?thesis by (simp add: stride_at_Suc)
  qed
  have fu: "nat (stride_at ?low ?upp ?n) \<le> fuel"
    using assms(5) by (simp add: stride_at_def)
  from cube_walk [OF lv c fu] obtain ps fin where
    p: "points CUBE d fuel it = Some (ps, fin)" and dn: "\<not> hasNext fin"
    and lps: "int (length ps) = stride_at ?low ?upp ?n"
    and each: "\<forall>k<length ps. inbox ?n ?low ?upp (ps ! k) \<and> rank ?low ?upp ?n (ps ! k) = int k"
    by blast
  have cnt: "int (length ps) = (\<Prod>i<?n. ?upp ! i - ?low ! i + 1)"
    using lps by (simp add: stride_at_def)
  have fi: "flat_index it (ps ! k) = int k" if "k < length ps" for k
  proof -
    from each that have "length (ps ! k) = ?n" "rank ?low ?upp ?n (ps ! k) = int k"
      by (simp_all add: inbox_def)
    with flat_index_rank [OF refl refl len(1) pos, of "ps ! k"] show ?thesis by simp
  qed
  have spos: "0 < stride_at ?low ?upp ?n"
    using rank_bounds [OF inbox_low [OF lv] le_refl] by simp
  then have ne: "ps \<noteq> []" using lps by auto
  have ib_low: "inbox ?n ?low ?upp ?low" by (rule inbox_low [OF lv])
  have ib_upp: "inbox ?n ?low ?upp ?upp" by (rule inbox_upp [OF lv])
  have at: "ps ! nat (rank ?low ?upp ?n q) = q" if q: "inbox ?n ?low ?upp q" for q
  proof -
    from rank_bounds [OF q le_refl]
    have b: "0 \<le> rank ?low ?upp ?n q" "rank ?low ?upp ?n q < stride_at ?low ?upp ?n" by auto
    define k where "k = nat (rank ?low ?upp ?n q)"
    have k: "k < length ps" "int k = rank ?low ?upp ?n q" using b lps by (simp_all add: k_def)
    with each have "inbox ?n ?low ?upp (ps ! k)" "rank ?low ?upp ?n (ps ! k) = rank ?low ?upp ?n q"
      by simp_all
    from rank_inj [OF this(1) q this(2)] show ?thesis by (simp add: k_def)
  qed
  have mem: "q \<in> set ps" if q: "inbox ?n ?low ?upp q" for q
  proof -
    from rank_bounds [OF q le_refl] lps have "nat (rank ?low ?upp ?n q) < length ps" by linarith
    with at [OF q] show ?thesis by (metis nth_mem)
  qed
  have "rank ?low ?upp ?n ?low = 0" by (rule rank_all_low) simp
  with at [OF ib_low] have "ps ! 0 = ?low" by simp
  with ne have h: "hd ps = ?low" by (simp add: hd_conv_nth)
  have "nat (rank ?low ?upp ?n ?upp) = length ps - 1" using lps by (simp add: rank_upp)
  with at [OF ib_upp] ne have l: "last ps = ?upp" by (simp add: last_conv_nth)
  have sub: "inbox ?n ?low ?upp q" if "q \<in> set ps" for q
    using that each by (auto simp: in_set_conv_nth)
  have se: "set ps = {p. length p = ?n \<and> (\<forall>i<?n. ?low ! i \<le> p ! i \<and> p ! i \<le> ?upp ! i)}"
  proof -
    have "set ps = {p. inbox ?n ?low ?upp p}" using sub mem by blast
    then show ?thesis by (simp only: inbox_def)
  qed
  have m: "map (flat_index it) ps = map int [0 ..< length ps]"
    by (rule nth_equalityI) (simp_all add: fi)
  have cons: "\<forall>k. Suc k < length ps \<longrightarrow> flat_index it (ps ! Suc k) = flat_index it (ps ! k) + 1"
    using fi by simp
  have fia: "\<forall>k<length ps. flat_index it (ps ! k) = int k" using fi by simp
  have ex: "\<exists>ps fin. points CUBE d fuel it = Some (ps, fin) \<and> \<not> hasNext fin \<and>
            int (length ps) = (\<Prod>i<length a. m_upp it ! i - m_low it ! i + 1) \<and>
            hd ps = m_low it \<and> last ps = m_upp it \<and>
            set ps = {p. length p = length a \<and>
                         (\<forall>i<length a. m_low it ! i \<le> p ! i \<and> p ! i \<le> m_upp it ! i)} \<and>
            (\<forall>k<length ps. flat_index it (ps ! k) = int k) \<and>
            map (flat_index it) ps = map int [0 ..< length ps] \<and>
            (\<forall>k. Suc k < length ps \<longrightarrow> flat_index it (ps ! Suc k) = flat_index it (ps ! k) + 1)"
    by (intro exI [of _ ps] exI [of _ fin] conjI p dn cnt h l se fia m cons)
  have skall: "\<forall>k. 0 < k \<and> k < length a \<longrightarrow>
              strides it ! k = strides it ! (k - 1) * (m_upp it ! (k - 1) - m_low it ! (k - 1) + 1)"
    using sk by blast
  show ?thesis by (intro conjI st(1) s0 skall ex)
qed

theorem cube_stride_law_witness:
  "gsGridIterator_ab [1, 1, 1] [3, 2, 3] False
     = Inr \<lparr> m_low = [1, 1, 1], m_upp = [3, 2, 3], m_cur = [1, 1, 1], m_dim = 3 \<rparr> \<and>
   strides \<lparr> m_low = [1, 1, 1], m_upp = [3, 2, 3], m_cur = [1, 1, 1], m_dim = 3 \<rparr> = [1, 3, 6] \<and>
   points CUBE (Some 3) 18 \<lparr> m_low = [1, 1, 1], m_upp = [3, 2, 3], m_cur = [1, 1, 1], m_dim = 3 \<rparr>
     = Some ([[1, 1, 1], [2, 1, 1], [3, 1, 1], [1, 2, 1], [2, 2, 1], [3, 2, 1],
              [1, 1, 2], [2, 1, 2], [3, 1, 2], [1, 2, 2], [2, 2, 2], [3, 2, 2],
              [1, 1, 3], [2, 1, 3], [3, 1, 3], [1, 2, 3], [2, 2, 3], [3, 2, 3]],
             \<lparr> m_low = [1, 1, 1], m_upp = [3, 2, 3], m_cur = [1, 1, 1], m_dim = 0 \<rparr>) \<and>
   map (flat_index \<lparr> m_low = [1, 1, 1], m_upp = [3, 2, 3], m_cur = [1, 1, 1], m_dim = 3 \<rparr>)
       [[1, 1, 1], [2, 1, 1], [3, 1, 1], [1, 2, 1], [2, 2, 1], [3, 2, 1],
        [1, 1, 2], [2, 1, 2], [3, 1, 2], [1, 2, 2], [2, 2, 2], [3, 2, 2],
        [1, 1, 3], [2, 1, 3], [3, 1, 3], [1, 2, 3], [2, 2, 3], [3, 2, 3]]
     = [0, 1, 2, 3, 4, 5, 6, 7, 8, 9, 10, 11, 12, 13, 14, 15, 16, 17]"
proof -
  let ?it = "\<lparr> m_low = [1, 1, 1], m_upp = [3, 2, 3], m_cur = [1, 1, 1], m_dim = 3 \<rparr>"
  let ?ps = "[[1, 1, 1], [2, 1, 1], [3, 1, 1], [1, 2, 1], [2, 2, 1], [3, 2, 1],
              [1, 1, 2], [2, 1, 2], [3, 1, 2], [1, 2, 2], [2, 2, 2], [3, 2, 2],
              [1, 1, 3], [2, 1, 3], [3, 1, 3], [1, 2, 3], [2, 2, 3], [3, 2, 3 :: int]]"
  have h: "gsGridIterator_ab [1, 1, 1] [3, 2, 3] False = Inr ?it"
    by (simp add: gsGridIterator_ab_def reset3_def)
  have n: "nat (\<Prod>i<length [1, 1, 1 :: int]. m_upp ?it ! i - m_low ?it ! i + 1) \<le> 18" by simp
  have s: "strides ?it = [1, 3, 6]" by (simp add: strides_def upt_conv_Cons)
  have ev: "points CUBE (Some 3) 18 ?it
            = Some (?ps, \<lparr> m_low = [1, 1, 1], m_upp = [3, 2, 3], m_cur = [1, 1, 1], m_dim = 0 \<rparr>)"
    by code_simp
  have hy: "[1, 1, 1 :: int] \<noteq> []" "list_all2 (\<le>) (m_low ?it) (m_upp ?it)"
    "Some 3 = None \<or> Some 3 = Some (length [1, 1, 1 :: int])" by simp_all
  from cube_stride_law [OF h hy n] obtain ps fin where
    p: "points CUBE (Some 3) 18 ?it = Some (ps, fin)"
    and m: "map (flat_index ?it) ps = map int [0 ..< length ps]" by blast
  from p ev have "ps = ?ps" by simp
  with m have "map (flat_index ?it) ?ps = map int [0 ..< length ?ps]" by simp
  also have "map int [0 ..< length ?ps] = [0, 1, 2, 3, 4, 5, 6, 7, 8, 9, 10, 11, 12, 13, 14, 15, 16, 17]"
    by code_simp
  finally have fl: "map (flat_index ?it) ?ps = [0, 1, 2, 3, 4, 5, 6, 7, 8, 9, 10, 11, 12, 13, 14, 15, 16, 17]" .
  from h s ev fl show ?thesis by (intro conjI)
qed

section \<open>The boundary (mode 1)\<close>

lemma stride_at_Suc_shift:
  "stride_at low upp (Suc k) = (upp ! 0 - low ! 0 + 1) * stride_at (tl low) (tl upp) k"
  if "k < length low" "k < length upp"
proof -
  have "stride_at low upp (Suc k) = (upp ! 0 - low ! 0 + 1) * (\<Prod>j<k. upp ! Suc j - low ! Suc j + 1)"
    unfolding stride_at_def by (subst prod.lessThan_Suc_shift) (simp add: comp_def)
  also have "(\<Prod>j<k. upp ! Suc j - low ! Suc j + 1) = (\<Prod>j<k. tl upp ! j - tl low ! j + 1)"
    using that by (intro prod.cong) (simp_all add: nth_tl)
  finally show ?thesis by (simp add: stride_at_def)
qed

lemma rank_Suc_shift:
  assumes "length low = Suc n" "length upp = Suc n" "length p = Suc n"
  shows "rank low upp (Suc n) p
         = (p ! 0 - low ! 0) + (upp ! 0 - low ! 0 + 1) * rank (tl low) (tl upp) n (tl p)"
proof -
  have "rank low upp (Suc n) p
        = (p ! 0 - low ! 0) + (\<Sum>i<n. (p ! Suc i - low ! Suc i) * stride_at low upp (Suc i))"
    unfolding rank_def by (subst sum.lessThan_Suc_shift) (simp add: comp_def)
  also have "(\<Sum>i<n. (p ! Suc i - low ! Suc i) * stride_at low upp (Suc i))
             = (\<Sum>i<n. (upp ! 0 - low ! 0 + 1) * ((tl p ! i - tl low ! i) * stride_at (tl low) (tl upp) i))"
    using assms by (intro sum.cong) (simp_all add: nth_tl stride_at_Suc_shift)
  also have "\<dots> = (upp ! 0 - low ! 0 + 1) * rank (tl low) (tl upp) n (tl p)"
    by (simp add: rank_def sum_distrib_left)
  finally show ?thesis .
qed

lemma inbox_tl:
  assumes "inbox (Suc n) low upp p" "length low = Suc n" "length upp = Suc n"
  shows "inbox n (tl low) (tl upp) (tl p)"
  using assms by (auto simp: inbox_def nth_tl)

lemma bdr_invariant:
  assumes "live d n low upp it" "m_cur it \<noteq> upp" "onbdr n low upp (m_cur it)"
  shows "onbdr n low upp (m_cur (incr BDR d it))"
proof -
  let ?p = "m_cur it" and ?q = "m_cur (incr BDR d it)"
  let ?free = "\<forall>j. 1 \<le> j \<and> j < n \<longrightarrow> ?p ! j \<noteq> low ! j \<and> ?p ! j \<noteq> upp ! j"
  have n: "0 < n" using assms(1) by (simp add: live_def)
  from incr1_step [OF assms(1,2)] obtain i where
    ls: "lexstep n low upp i ?p ?q"
    and v: "?q ! i = (if i = 0 \<and> ?p ! 0 = low ! 0 \<and> ?free then upp ! 0 else ?p ! i + 1)" by blast
  show ?thesis
  proof (cases "0 < i")
    case True
    with ls have "?q ! 0 = low ! 0" by (simp add: lexstep_def)
    with n show ?thesis unfolding onbdr_def by blast
  next
    case False
    then have i0: "i = 0" by simp
    have pu: "?p ! 0 \<noteq> upp ! 0" using ls i0 by (auto simp: lexstep_def)
    show ?thesis
    proof (cases "?p ! 0 = low ! 0 \<and> ?free")
      case True
      with v i0 have "?q ! 0 = upp ! 0" by simp
      with n show ?thesis unfolding onbdr_def by blast
    next
      case False
      have "\<exists>j. 1 \<le> j \<and> j < n \<and> (?p ! j = low ! j \<or> ?p ! j = upp ! j)"
      proof (rule ccontr)
        assume "\<not> ?thesis"
        then have fr: ?free by blast
        from assms(3) obtain j where j: "j < n" "?p ! j = low ! j \<or> ?p ! j = upp ! j"
          unfolding onbdr_def by blast
        with fr have "j = 0" by (cases j) auto
        with j pu fr False show False by simp
      qed
      then obtain j where j: "1 \<le> j" "j < n" "?p ! j = low ! j \<or> ?p ! j = upp ! j" by blast
      with ls i0 have "?q ! j = ?p ! j" by (simp add: lexstep_def)
      with j show ?thesis unfolding onbdr_def by auto
    qed
  qed
qed

text \<open>No boundary point lies strictly between a boundary point and its successor.\<close>

lemma bdr_gap:
  assumes "live d n low upp it" "m_cur it \<noteq> upp"
    "inbox n low upp q" "onbdr n low upp q"
    "rank low upp n (m_cur it) < rank low upp n q"
  shows "rank low upp n (m_cur (incr BDR d it)) \<le> rank low upp n q"
proof -
  let ?p = "m_cur it" and ?p' = "m_cur (incr BDR d it)"
  let ?free = "\<forall>j. 1 \<le> j \<and> j < n \<longrightarrow> ?p ! j \<noteq> low ! j \<and> ?p ! j \<noteq> upp ! j"
  have f: "0 < n" "length low = n" "length upp = n" and ib: "inbox n low upp ?p"
    using assms(1) by (simp_all add: live_def)
  from incr1_step [OF assms(1,2)] obtain i where
    ls: "lexstep n low upp i ?p ?p'"
    and v: "?p' ! i = (if i = 0 \<and> ?p ! 0 = low ! 0 \<and> ?free then upp ! 0 else ?p ! i + 1)" by blast
  have rk: "rank low upp n ?p' = rank low upp n ?p + (?p' ! i - ?p ! i - 1) * stride_at low upp i + 1"
    by (rule lexstep_rank [OF ls])
  show ?thesis
  proof (cases "i = 0 \<and> ?p ! 0 = low ! 0 \<and> ?free")
    case False
    have "?p' ! i = ?p ! i + 1" unfolding v using False by (rule if_not_P)
    with rk assms(5) show ?thesis by simp
  next
    case True
    then have i0: "i = 0" and p0: "?p ! 0 = low ! 0" and fr: ?free by auto
    from f(1) obtain n' where n': "n = Suc n'" by (cases n) auto
    define e where "e = upp ! 0 - low ! 0 + 1"
    define rp where "rp = rank (tl low) (tl upp) n' (tl ?p)"
    define rq where "rq = rank (tl low) (tl upp) n' (tl q)"
    define dq where "dq = q ! 0 - low ! 0"
    have lp: "length ?p = Suc n'" and lq: "length q = Suc n'"
      using ib assms(3) n' by (simp_all add: inbox_def)
    have Rp: "rank low upp n ?p = e * rp"
      using rank_Suc_shift [of low n' upp ?p] f lp p0 n' by (simp add: e_def rp_def)
    have Rq: "rank low upp n q = dq + e * rq"
      using rank_Suc_shift [of low n' upp q] f lq n' by (simp add: e_def rq_def dq_def)
    have Rp': "rank low upp n ?p' = e * rp + (e - 1)"
      using rk v True Rp by (simp add: e_def)
    have dqb: "0 \<le> dq" "dq \<le> e - 1"
      using assms(3) f(1) by (auto simp: inbox_def dq_def e_def)
    show ?thesis
    proof (rule ccontr)
      assume "\<not> ?thesis"
      then have lt: "dq + e * rq < e * rp + (e - 1)" using Rq Rp' by simp
      have gt: "e * rp < dq + e * rq" using assms(5) Rp Rq by simp
      have e1: "1 \<le> e" using dqb by simp
      have eq: "rq = rp"
      proof (rule ccontr)
        assume "rq \<noteq> rp"
        then consider "rq + 1 \<le> rp" | "rp + 1 \<le> rq" by linarith
        then show False
        proof cases
          case 1
          then have "e * (rq + 1) \<le> e * rp" using e1 by (intro mult_left_mono) simp_all
          with gt dqb show False by (simp add: algebra_simps)
        next
          case 2
          then have "e * (rp + 1) \<le> e * rq" using e1 by (intro mult_left_mono) simp_all
          with lt dqb show False by (simp add: algebra_simps)
        qed
      qed
      have dq: "0 < dq" "dq < e - 1" using lt gt eq by simp_all
      have q0: "q ! 0 \<noteq> low ! 0" "q ! 0 \<noteq> upp ! 0" using dq by (auto simp: dq_def e_def)
      have "tl q = tl ?p"
      proof (rule rank_inj)
        show "inbox n' (tl low) (tl upp) (tl q)"
          by (rule inbox_tl) (use assms(3) f n' in simp_all)
        show "inbox n' (tl low) (tl upp) (tl ?p)"
          by (rule inbox_tl) (use ib f n' in simp_all)
        show "rank (tl low) (tl upp) n' (tl q) = rank (tl low) (tl upp) n' (tl ?p)"
          using eq by (simp add: rq_def rp_def)
      qed
      then have same: "q ! j = ?p ! j" if "1 \<le> j" "j < n" for j
      proof -
        from that obtain j' where j': "j = Suc j'" by (cases j) auto
        with that lp lq n' have "q ! j = tl q ! j'" "?p ! j = tl ?p ! j'" by (simp_all add: nth_tl)
        with \<open>tl q = tl ?p\<close> show ?thesis by simp
      qed
      from assms(4) obtain j where j: "j < n" "q ! j = low ! j \<or> q ! j = upp ! j"
        unfolding onbdr_def by blast
      show False
      proof (cases "j = 0")
        case True
        with j q0 show False by simp
      next
        case False
        then have "1 \<le> j" by simp
        with same [OF this j(1)] fr j show False by simp
      qed
    qed
  qed
qed

lemma walk_strict:
  assumes "live d n low upp it" "mode \<noteq> CWISE"
    "\<forall>k<m. m_cur ((incr mode d ^^ k) it) \<noteq> upp" "k \<le> m" "j < k"
  shows "rank low upp n (m_cur ((incr mode d ^^ j) it)) < rank low upp n (m_cur ((incr mode d ^^ k) it))"
  using assms(4,5)
proof (induction k)
  case 0
  then show ?case by simp
next
  case (Suc k)
  let ?s = "(incr mode d ^^ k) it"
  have lv: "live d n low upp ?s" using walk_prefix [OF assms(1,2), of k] assms(3) Suc.prems by simp
  have ne: "m_cur ?s \<noteq> upp" using assms(3) Suc.prems by simp
  have st: "rank low upp n (m_cur ?s) < rank low upp n (m_cur ((incr mode d ^^ Suc k) it))"
    using incr_step [OF lv ne assms(2)] by simp
  show ?case
  proof (cases "j = k")
    case True
    with st show ?thesis by simp
  next
    case False
    with Suc.prems have "j < k" "k \<le> m" by simp_all
    from Suc.IH [OF this(2,1)] st show ?thesis by simp
  qed
qed

text \<open>
  From the lower corner the walk in mode 1 visits every boundary point of the box once,
  and nothing else.
\<close>

lemma bdr_walk:
  assumes "live d n low upp it" "m_cur it = low" "nat (stride_at low upp n) \<le> fuel"
  shows "\<exists>ps fin. points BDR d fuel it = Some (ps, fin) \<and> \<not> hasNext fin \<and> distinct ps \<and>
           set ps = {p. inbox n low upp p \<and> onbdr n low upp p}"
proof -
  let ?c = "\<lambda>k. m_cur ((incr BDR d ^^ k) it)"
  from walk [OF assms(1), of BDR] obtain m where
    lv: "\<forall>k\<le>m. live d n low upp ((incr BDR d ^^ k) it)"
    and ne: "\<forall>k<m. ?c k \<noteq> upp"
    and up: "?c m = upp"
    and dn: "\<not> hasNext ((incr BDR d ^^ Suc m) it)"
    and bd: "rank low upp n (m_cur it) + int m < stride_at low upp n" by auto
  have n: "0 < n" using assms(1) by (simp add: live_def)
  have r0: "rank low upp n (m_cur it) = 0" unfolding assms(2) by (rule rank_all_low) simp
  have fu: "Suc m \<le> fuel" using bd r0 assms(3) by linarith
  let ?ps = "map (\<lambda>k. deref ((incr BDR d ^^ k) it)) [0 ..< Suc m]"
  have p: "points BDR d fuel it = Some (?ps, (incr BDR d ^^ Suc m) it)"
    by (rule points_of_walk [OF lv dn fu])
  have ob: "onbdr n low upp (?c k)" if "k \<le> m" for k
    using that
  proof (induction k)
    case 0
    show ?case using n assms(2) unfolding onbdr_def by auto
  next
    case (Suc k)
    then have k: "k \<le> m" "k < m" by simp_all
    from bdr_invariant [OF lv [rule_format, OF k(1)] ne [rule_format, OF k(2)] Suc.IH [OF k(1)]]
    show ?case by simp
  qed
  have set_ps: "set ?ps = ?c ` {..m}"
    by (simp add: deref_def atLeast0LessThan lessThan_Suc_atMost del: upt_Suc)
  have sub: "?c k \<in> {p. inbox n low upp p \<and> onbdr n low upp p}" if "k \<le> m" for k
    using lv that ob by (simp add: live_def)
  have sup: "\<exists>k\<le>m. ?c k = q" if q: "inbox n low upp q" "onbdr n low upp q" for q
  proof -
    have step: "(\<exists>j\<le>k. ?c j = q) \<or> rank low upp n (?c k) < rank low upp n q" if "k \<le> m" for k
      using that
    proof (induction k)
      case 0
      have "0 \<le> rank low upp n q" using rank_bounds [OF q(1), of n] by simp
      then consider "rank low upp n q = 0" | "rank low upp n (?c 0) < rank low upp n q"
        using r0 by fastforce
      then show ?case
      proof cases
        case 1
        have "m_cur it = q"
          by (rule rank_inj [OF _ q(1)]) (use assms(1) r0 1 in \<open>simp_all add: live_def\<close>)
        then show ?thesis by simp
      next
        case 2
        then show ?thesis by simp
      qed
    next
      case (Suc k)
      then have k: "k \<le> m" "k < m" by simp_all
      from Suc.IH [OF k(1)] show ?case
      proof
        assume "\<exists>j\<le>k. ?c j = q"
        then obtain j where j: "j \<le> k" "?c j = q" by blast
        from j(1) have "j \<le> Suc k" by simp
        with j(2) show ?thesis by blast
      next
        assume lt: "rank low upp n (?c k) < rank low upp n q"
        have le: "rank low upp n (?c (Suc k)) \<le> rank low upp n q"
          using bdr_gap [OF lv [rule_format, OF k(1)] ne [rule_format, OF k(2)] q lt] by simp
        show ?thesis
        proof (cases "rank low upp n (?c (Suc k)) = rank low upp n q")
          case True
          have "inbox n low upp (?c (Suc k))"
            using lv [rule_format, OF Suc.prems] by (simp add: live_def)
          from rank_inj [OF this q(1) True] show ?thesis by blast
        next
          case False
          with le show ?thesis by simp
        qed
      qed
    qed
    from step [OF le_refl] show ?thesis
    proof
      assume "\<exists>j\<le>m. ?c j = q"
      then show ?thesis .
    next
      assume "rank low upp n (?c m) < rank low upp n q"
      with up rank_bounds [OF q(1), of n] show ?thesis by (simp add: rank_upp)
    qed
  qed
  have eq: "set ?ps = {p. inbox n low upp p \<and> onbdr n low upp p}"
    unfolding set_ps using sub sup by (auto simp: image_iff)
  have inj: "inj_on (\<lambda>k. deref ((incr BDR d ^^ k) it)) (set [0 ..< Suc m])"
  proof (rule inj_onI)
    fix j k assume jk: "j \<in> set [0 ..< Suc m]" "k \<in> set [0 ..< Suc m]"
      and e: "deref ((incr BDR d ^^ j) it) = deref ((incr BDR d ^^ k) it)"
    have jm: "j \<le> m" "k \<le> m" using jk by (simp_all add: less_Suc_eq_le del: upt_Suc)
    show "j = k"
    proof (rule ccontr)
      assume "j \<noteq> k"
      then consider "j < k" | "k < j" by linarith
      then show False
      proof cases
        case 1
        from walk_strict [OF assms(1) _ ne jm(2) 1] e show False by (simp add: deref_def)
      next
        case 2
        from walk_strict [OF assms(1) _ ne jm(1) 2] e show False by (simp add: deref_def)
      qed
    qed
  qed
  have ds: "distinct ?ps" by (simp only: distinct_map distinct_upt inj)
  from p dn ds eq show ?thesis by blast
qed

text \<open>\<open>isBoundary\<close> tests whether the current point is on the boundary of the box.\<close>

lemma isBoundary_onbdr:
  assumes "length (m_cur it) = n" "length (m_low it) = n" "length (m_upp it) = n"
  shows "isBoundary it \<longleftrightarrow> onbdr n (m_low it) (m_upp it) (m_cur it)"
proof -
  have 1: "list_ex (\<lambda>(c, l). c = l) (zip (m_cur it) (m_low it)) \<longleftrightarrow> (\<exists>i<n. m_cur it ! i = m_low it ! i)"
    using assms by (auto simp: list_ex_iff set_zip)
  have 2: "list_ex (\<lambda>(c, u). c = u) (zip (m_cur it) (m_upp it)) \<longleftrightarrow> (\<exists>i<n. m_cur it ! i = m_upp it ! i)"
    using assms by (auto simp: list_ex_iff set_zip)
  show ?thesis unfolding isBoundary_def 1 2 onbdr_def by auto
qed

text \<open>
  Claim C1. For every non-empty box of dimension at least 1, the full traversal of the
  mode-1 iterator returns and emits, each once, exactly the lattice points of
  \<open>[low, upp]\<close> that have at least one coordinate equal to \<open>low[i]\<close> or \<open>upp[i]\<close>;
  \<open>isBoundary()\<close> is true at each of them. This
  holds in particular when every axis extent is at least 2; for \<open>low = [0,0]\<close>,
  \<open>upp = [2,2]\<close> the emitted points are the 8 perimeter points of the 3x3 grid, without
  \<open>(1,1)\<close>.
\<close>

theorem bdr_emits_boundary:
  assumes "gsGridIterator_ab a b opn = Inr it" "a \<noteq> []"
    "list_all2 (\<le>) (m_low it) (m_upp it)" "d = None \<or> d = Some (length a)"
    "nat (\<Prod>i<length a. m_upp it ! i - m_low it ! i + 1) \<le> fuel"
  shows "\<exists>ps fin. points BDR d fuel it = Some (ps, fin) \<and> \<not> hasNext fin \<and> distinct ps \<and>
           set ps = {p. length p = length a \<and>
                        (\<forall>i<length a. m_low it ! i \<le> p ! i \<and> p ! i \<le> m_upp it ! i) \<and>
                        (\<exists>i<length a. p ! i = m_low it ! i \<or> p ! i = m_upp it ! i)} \<and>
           (\<forall>p\<in>set ps. isBoundary (it\<lparr> m_cur := p \<rparr>))"
proof -
  from assms(1) have r: "reset3 a b opn = Inr it" by (simp add: gsGridIterator_ab_def)
  from reset3_live [OF r assms(2,3,4)]
  have lv: "live d (length a) (m_low it) (m_upp it) it" and c: "m_cur it = m_low it" by auto
  have len: "length (m_low it) = length a" "length (m_upp it) = length a"
    using lv by (simp_all add: live_def)
  have fu: "nat (stride_at (m_low it) (m_upp it) (length a)) \<le> fuel"
    using assms(5) by (simp add: stride_at_def)
  from bdr_walk [OF lv c fu] obtain ps fin where
    p: "points BDR d fuel it = Some (ps, fin)" "\<not> hasNext fin" "distinct ps"
    and st: "set ps = {p. inbox (length a) (m_low it) (m_upp it) p \<and> onbdr (length a) (m_low it) (m_upp it) p}"
    by blast
  have ib: "isBoundary (it\<lparr> m_cur := p \<rparr>)" if "p \<in> set ps" for p
  proof -
    from that st have "length p = length a" "onbdr (length a) (m_low it) (m_upp it) p"
      by (simp_all add: inbox_def)
    with isBoundary_onbdr [of "it\<lparr> m_cur := p \<rparr>" "length a"] len show ?thesis by simp
  qed
  from p st ib show ?thesis by (simp add: inbox_def onbdr_def)
qed

theorem bdr_emits_boundary_witness:
  "gsGridIterator_ab [0, 0] [2, 2] False
     = Inr \<lparr> m_low = [0, 0], m_upp = [2, 2], m_cur = [0, 0], m_dim = 2 \<rparr> \<and>
   points BDR None 9 \<lparr> m_low = [0, 0], m_upp = [2, 2], m_cur = [0, 0], m_dim = 2 \<rparr>
     = Some ([[0, 0], [1, 0], [2, 0], [0, 1], [2, 1], [0, 2], [1, 2], [2, 2]],
             \<lparr> m_low = [0, 0], m_upp = [2, 2], m_cur = [2, 2], m_dim = 0 \<rparr>) \<and>
   set [[0, 0], [1, 0], [2, 0], [0, 1], [2, 1], [0, 2], [1, 2], [2, 2]]
     = {p. length p = 2 \<and> (\<forall>i<2. [0, 0] ! i \<le> p ! i \<and> p ! i \<le> [2, 2] ! i) \<and>
           (\<exists>i<2. p ! i = [0, 0] ! i \<or> p ! i = [2, 2 :: int] ! i)}"
proof -
  let ?it = "\<lparr> m_low = [0, 0], m_upp = [2, 2], m_cur = [0, 0], m_dim = 2 \<rparr>"
  have h: "gsGridIterator_ab [0, 0] [2, 2] False = Inr ?it"
    by (simp add: gsGridIterator_ab_def reset3_def)
  have n: "nat (\<Prod>i<length [0, 0 :: int]. m_upp ?it ! i - m_low ?it ! i + 1) \<le> 9" by simp
  have ev: "points BDR None 9 ?it
     = Some ([[0, 0], [1, 0], [2, 0], [0, 1], [2, 1], [0, 2], [1, 2], [2, 2]],
             \<lparr> m_low = [0, 0], m_upp = [2, 2], m_cur = [2, 2], m_dim = 0 \<rparr>)"
    by code_simp
  from bdr_emits_boundary [OF h _ _ _ n, of None] ev
  have "set [[0, 0], [1, 0], [2, 0], [0, 1], [2, 1], [0, 2], [1, 2], [2, 2]]
     = {p. length p = 2 \<and> (\<forall>i<2. [0, 0] ! i \<le> p ! i \<and> p ! i \<le> [2, 2] ! i) \<and>
           (\<exists>i<2. p ! i = [0, 0] ! i \<or> p ! i = [2, 2 :: int] ! i)}"
    by (simp add: numeral_2_eq_2)
  with h ev show ?thesis by simp
qed

text \<open>The number of lattice points of a non-empty box.\<close>

lemma box_card:
  assumes "0 < n" "length low = n" "length upp = n" "\<forall>i<n. low ! i \<le> upp ! i"
  shows "finite {p. inbox n low upp p} \<and> int (card {p. inbox n low upp p}) = stride_at low upp n"
proof -
  define it where "it = \<lparr> m_low = low, m_upp = upp, m_cur = low, m_dim = n \<rparr>"
  have lv: "live None n low upp it" using assms by (simp add: live_def it_def inbox_def)
  have c: "m_cur it = low" by (simp add: it_def)
  from cube_walk [OF lv c le_refl] obtain ps fin where
    len: "int (length ps) = stride_at low upp n"
    and each: "\<forall>k<length ps. inbox n low upp (ps ! k) \<and> rank low upp n (ps ! k) = int k" by blast
  have sub: "set ps \<subseteq> {p. inbox n low upp p}" using each by (auto simp: in_set_conv_nth)
  have sup: "q \<in> set ps" if q: "inbox n low upp q" for q
  proof -
    from rank_bounds [OF q le_refl] have b: "0 \<le> rank low upp n q" "rank low upp n q < stride_at low upp n"
      by auto
    define k where "k = nat (rank low upp n q)"
    have k: "k < length ps" "int k = rank low upp n q" using b len by (simp_all add: k_def)
    with each have "inbox n low upp (ps ! k)" "rank low upp n (ps ! k) = rank low upp n q" by simp_all
    from rank_inj [OF this(1) q this(2)] k(1) show ?thesis by (auto simp: in_set_conv_nth)
  qed
  have eq: "{p. inbox n low upp p} = set ps" using sub sup by auto
  have "distinct ps" unfolding distinct_conv_nth
  proof (intro allI impI)
    fix i j assume "i < length ps" "j < length ps" "i \<noteq> j"
    with each have "rank low upp n (ps ! i) = int i" "rank low upp n (ps ! j) = int j" by simp_all
    with \<open>i \<noteq> j\<close> show "ps ! i \<noteq> ps ! j" by auto
  qed
  then have "card (set ps) = length ps" by (rule distinct_card)
  with len show ?thesis unfolding eq by simp
qed

lemma interior_card:
  assumes "0 < n" "length low = n" "length upp = n" "\<forall>i<n. low ! i < upp ! i"
  shows "int (card {p. inbox n low upp p \<and> \<not> onbdr n low upp p}) = (\<Prod>i<n. upp ! i - low ! i - 1)"
proof -
  define low' where "low' = map (\<lambda>x. x + 1) low"
  define upp' where "upp' = map (\<lambda>x. x - 1) upp"
  have eq: "{p. inbox n low upp p \<and> \<not> onbdr n low upp p} = {p. inbox n low' upp' p}"
    using assms(2,3) by (auto simp: inbox_def onbdr_def low'_def upp'_def) force+
  have pr: "stride_at low' upp' n = (\<Prod>i<n. upp ! i - low ! i - 1)"
    unfolding stride_at_def using assms(2,3) by (intro prod.cong) (simp_all add: low'_def upp'_def)
  show ?thesis
  proof (cases "\<forall>i<n. low' ! i \<le> upp' ! i")
    case True
    from box_card [OF assms(1) _ _ True] assms(2,3) show ?thesis
      unfolding eq pr by (simp add: low'_def upp'_def)
  next
    case False
    then obtain i where i: "i < n" "upp' ! i < low' ! i" by auto
    then have e: "{p. inbox n low' upp' p} = {}" by (auto simp: inbox_def)
    have "upp ! i - low ! i - 1 = 0"
      using i assms by (simp add: low'_def upp'_def) (smt (verit))
    with i(1) have "\<exists>a\<in>{..<n}. upp ! a - low ! a - 1 = 0" by blast
    then have z: "(\<Prod>i<n. upp ! i - low ! i - 1) = 0" by (intro prod_zero) simp_all
    show ?thesis unfolding eq e z by simp
  qed
qed


text \<open>
  For every box of dimension at least 1 in which every axis has extent at least 2
  (\<open>low[i] < upp[i]\<close>), the number of points a full mode-1 traversal emits is
  \<open>prod (upp - low + 1) - prod (upp - low - 1)\<close>, the value of \<open>numPoints()\<close>.
\<close>

theorem bdr_count:
  assumes "gsGridIterator_ab a b opn = Inr it" "a \<noteq> []"
    "list_all2 (<) (m_low it) (m_upp it)" "d = None \<or> d = Some (length a)"
    "nat (\<Prod>i<length a. m_upp it ! i - m_low it ! i + 1) \<le> fuel"
  shows "\<exists>ps fin. points BDR d fuel it = Some (ps, fin) \<and> \<not> hasNext fin \<and>
           int (length ps) = (\<Prod>i<length a. m_upp it ! i - m_low it ! i + 1)
                             - (\<Prod>i<length a. m_upp it ! i - m_low it ! i - 1) \<and>
           numPoints BDR it = Inr (int (length ps))"
proof -
  let ?n = "length a" and ?low = "m_low it" and ?upp = "m_upp it"
  from assms(1) have r: "reset3 a b opn = Inr it" by (simp add: gsGridIterator_ab_def)
  have le: "list_all2 (\<le>) ?low ?upp"
    using assms(3) by (rule list_all2_mono) simp
  from reset3_live [OF r assms(2) le assms(4)]
  have lv: "live d ?n ?low ?upp it" and c: "m_cur it = ?low" by auto
  have len: "length ?low = ?n" "length ?upp = ?n" and pos: "0 < ?n"
    using lv by (simp_all add: live_def)
  have lt: "\<forall>i<?n. ?low ! i < ?upp ! i"
    using assms(3) len by (simp add: list_all2_conv_all_nth)
  then have lei: "\<forall>i<?n. ?low ! i \<le> ?upp ! i" by (simp add: order_less_imp_le)
  have fu: "nat (stride_at ?low ?upp ?n) \<le> fuel"
    using assms(5) by (simp add: stride_at_def)
  from bdr_walk [OF lv c fu] obtain ps fin where
    p: "points BDR d fuel it = Some (ps, fin)" "\<not> hasNext fin" and ds: "distinct ps"
    and st: "set ps = {p. inbox ?n ?low ?upp p \<and> onbdr ?n ?low ?upp p}" by blast
  let ?box = "{p. inbox ?n ?low ?upp p}"
  let ?int = "{p. inbox ?n ?low ?upp p \<and> \<not> onbdr ?n ?low ?upp p}"
  from box_card [OF pos len lei] have fb: "finite ?box" and cb: "int (card ?box) = stride_at ?low ?upp ?n"
    by auto
  have ci: "int (card ?int) = (\<Prod>i<?n. ?upp ! i - ?low ! i - 1)"
    by (rule interior_card [OF pos len lt])
  have sub: "?int \<subseteq> ?box" by auto
  have "set ps = ?box - ?int" unfolding st by auto
  then have "card (set ps) = card ?box - card ?int"
    using card_Diff_subset [OF finite_subset [OF sub fb] sub] by simp
  moreover have "card ?int \<le> card ?box" by (rule card_mono [OF fb sub])
  ultimately have "int (length ps) = int (card ?box) - int (card ?int)"
    using distinct_card [OF ds] by simp
  then have cnt: "int (length ps) = (\<Prod>i<?n. ?upp ! i - ?low ! i + 1) - (\<Prod>i<?n. ?upp ! i - ?low ! i - 1)"
    unfolding cb ci by (simp add: stride_at_def)
  have "prod_list (map (\<lambda>x. x - 1) (map2 (-) ?upp ?low)) = (\<Prod>i<?n. ?upp ! i - ?low ! i - 1)"
    unfolding prod_list_nth using len by (intro prod.cong) simp_all
  then have "numPoints BDR it = Inr (int (length ps))"
    unfolding cnt using prod_list_extents [OF len] by (simp add: numPoints_def stride_at_def)
  with p cnt show ?thesis by blast
qed

text \<open>
  Claim C2. The number of points a full mode-1 traversal emits is not \<open>numPoints()\<close> on a
  box with an axis of extent 1: for \<open>low = [0,0]\<close>, \<open>upp = [0,2]\<close> the traversal emits the
  3 points of the box, and \<open>numPoints()\<close> is \<open>1 * 3 - (-1) * 1 = 4\<close>, the factor of the
  axis of extent 1 in the interior term being -1, not 0.
\<close>

theorem bdr_numPoints_extent_one:
  "gsGridIterator_ab [0, 0] [0, 2] False
     = Inr \<lparr> m_low = [0, 0], m_upp = [0, 2], m_cur = [0, 0], m_dim = 2 \<rparr> \<and>
   points BDR None 4 \<lparr> m_low = [0, 0], m_upp = [0, 2], m_cur = [0, 0], m_dim = 2 \<rparr>
     = Some ([[0, 0], [0, 1], [0, 2]], \<lparr> m_low = [0, 0], m_upp = [0, 2], m_cur = [0, 2], m_dim = 0 \<rparr>) \<and>
   numPoints BDR \<lparr> m_low = [0, 0], m_upp = [0, 2], m_cur = [0, 0], m_dim = 2 \<rparr> = Inr 4"
  by code_simp

section \<open>The vertices (mode 2)\<close>

lemma vrank_Suc: "vrank upp (Suc k) p = vrank upp k p + (if p ! k = upp ! k then 2 ^ k else 0)"
  by (simp add: vrank_def)

lemma vrank_all_upp: "\<forall>j<i. p ! j = upp ! j \<Longrightarrow> vrank upp i p + 1 = 2 ^ i"
  by (induction i) (simp_all add: vrank_Suc vrank_def)

lemma vrank_none_upp: "\<forall>j<i. p ! j \<noteq> upp ! j \<Longrightarrow> vrank upp i p = 0"
  by (simp add: vrank_def)

lemma vrank_tail:
  assumes "\<forall>j. i < j \<and> j < n \<longrightarrow> q ! j = p ! j" "Suc i \<le> k" "k \<le> n"
  shows "vrank upp k q + vrank upp (Suc i) p = vrank upp k p + vrank upp (Suc i) q"
  using assms(2,3)
proof (induction k)
  case 0
  then show ?case by simp
next
  case (Suc k)
  show ?case
  proof (cases "k = i")
    case True
    then show ?thesis by simp
  next
    case False
    with Suc.prems have ik: "i < k" "k < n" by auto
    with assms(1) have "q ! k = p ! k" by simp
    with Suc ik show ?thesis by (simp add: vrank_Suc)
  qed
qed

lemma vrank_step:
  assumes "lexstep n low upp i p q" "q ! i = upp ! i" "\<forall>j<n. low ! j < upp ! j"
  shows "vrank upp n q = vrank upp n p + 1"
proof -
  from assms(1) have i: "i < n" and lo: "\<forall>j<i. q ! j = low ! j" and up: "\<forall>j<i. p ! j = upp ! j"
    and tl: "\<forall>j. i < j \<and> j < n \<longrightarrow> q ! j = p ! j" and lt: "p ! i < q ! i"
    by (auto simp: lexstep_def)
  have "\<forall>j<i. q ! j \<noteq> upp ! j"
  proof (intro allI impI)
    fix j assume j: "j < i"
    with i assms(3) have "low ! j < upp ! j" by simp
    with lo j show "q ! j \<noteq> upp ! j" by simp
  qed
  then have q: "vrank upp (Suc i) q = 2 ^ i"
    using assms(2) by (simp add: vrank_Suc vrank_none_upp)
  have p: "vrank upp (Suc i) p + 1 = 2 ^ i"
    using vrank_all_upp [OF up] lt assms(2) by (simp add: vrank_Suc)
  from vrank_tail [OF tl _ le_refl, of upp] i p q show ?thesis by simp
qed

lemma vertex_step_corner:
  assumes "lexstep n low upp i p q" "q ! i = upp ! i" "corner n low upp p"
  shows "corner n low upp q"
  unfolding corner_def
proof (intro allI impI)
  fix j assume j: "j < n"
  consider "j < i" | "j = i" | "i < j" by linarith
  then show "q ! j = low ! j \<or> q ! j = upp ! j"
  proof cases
    case 1 then show ?thesis using assms(1) by (simp add: lexstep_def)
  next
    case 2 then show ?thesis using assms(2) by simp
  next
    case 3 then show ?thesis using assms(1,3) j by (simp add: lexstep_def corner_def)
  qed
qed

text \<open>
  From the lower corner the walk in mode 2 visits corners only; when no axis is
  degenerate it counts in binary and takes exactly \<open>2^n\<close> points.
\<close>

lemma vertex_walk:
  assumes "live d n low upp it" "m_cur it = low" "nat (stride_at low upp n) \<le> fuel"
  shows "\<exists>ps fin. points VERTEX d fuel it = Some (ps, fin) \<and> \<not> hasNext fin \<and> distinct ps \<and>
           (\<forall>p\<in>set ps. inbox n low upp p \<and> corner n low upp p) \<and>
           ((\<forall>j<n. low ! j < upp ! j) \<longrightarrow> length ps = 2 ^ n)"
proof -
  let ?c = "\<lambda>k. m_cur ((incr VERTEX d ^^ k) it)"
  from walk [OF assms(1), of VERTEX] obtain m where
    lv: "\<forall>k\<le>m. live d n low upp ((incr VERTEX d ^^ k) it)"
    and ne: "\<forall>k<m. ?c k \<noteq> upp"
    and up: "?c m = upp"
    and dn: "\<not> hasNext ((incr VERTEX d ^^ Suc m) it)"
    and bd: "rank low upp n (m_cur it) + int m < stride_at low upp n" by auto
  have r0: "rank low upp n (m_cur it) = 0" unfolding assms(2) by (rule rank_all_low) simp
  have fu: "Suc m \<le> fuel" using bd r0 assms(3) by linarith
  let ?ps = "map (\<lambda>k. deref ((incr VERTEX d ^^ k) it)) [0 ..< Suc m]"
  have p: "points VERTEX d fuel it = Some (?ps, (incr VERTEX d ^^ Suc m) it)"
    by (rule points_of_walk [OF lv dn fu])
  have st: "\<exists>i. lexstep n low upp i (?c k) (?c (Suc k)) \<and> ?c (Suc k) ! i = upp ! i" if "k < m" for k
  proof -
    from that have "k \<le> m" by simp
    from incr02_step [OF lv [rule_format, OF this] ne [rule_format, OF that], of VERTEX]
    show ?thesis by auto
  qed
  have co: "corner n low upp (?c k)" if "k \<le> m" for k
    using that
  proof (induction k)
    case 0
    show ?case using assms(2) by (simp add: corner_def)
  next
    case (Suc k)
    then have k: "k < m" "k \<le> m" by simp_all
    from st [OF k(1)] obtain i where "lexstep n low upp i (?c k) (?c (Suc k))" "?c (Suc k) ! i = upp ! i"
      by blast
    then show ?case using Suc.IH [OF k(2)] by (rule vertex_step_corner)
  qed
  have el: "\<forall>p\<in>set ?ps. inbox n low upp p \<and> corner n low upp p"
  proof
    fix p assume "p \<in> set ?ps"
    then obtain k where "k \<le> m" "p = ?c k"
      by (auto simp: deref_def less_Suc_eq_le simp del: upt_Suc)
    with lv co show "inbox n low upp p \<and> corner n low upp p" by (simp add: live_def)
  qed
  have inj: "inj_on (\<lambda>k. deref ((incr VERTEX d ^^ k) it)) (set [0 ..< Suc m])"
  proof (rule inj_onI)
    fix j k assume jk: "j \<in> set [0 ..< Suc m]" "k \<in> set [0 ..< Suc m]"
      and e: "deref ((incr VERTEX d ^^ j) it) = deref ((incr VERTEX d ^^ k) it)"
    have jm: "j \<le> m" "k \<le> m" using jk by (simp_all add: less_Suc_eq_le del: upt_Suc)
    show "j = k"
    proof (rule ccontr)
      assume "j \<noteq> k"
      then consider "j < k" | "k < j" by linarith
      then show False
      proof cases
        case 1
        from walk_strict [OF assms(1) _ ne jm(2) 1] e show False by (simp add: deref_def)
      next
        case 2
        from walk_strict [OF assms(1) _ ne jm(1) 2] e show False by (simp add: deref_def)
      qed
    qed
  qed
  have ds: "distinct ?ps" by (simp only: distinct_map distinct_upt inj)
  have cnt: "length ?ps = 2 ^ n" if strict: "\<forall>j<n. low ! j < upp ! j"
  proof -
    have vk: "vrank upp n (?c k) = k" if "k \<le> m" for k
      using that
    proof (induction k)
      case 0
      have "\<forall>j<n. m_cur it ! j \<noteq> upp ! j" using strict assms(2) by auto
      then show ?case by (simp add: vrank_none_upp)
    next
      case (Suc k)
      then have k: "k < m" "k \<le> m" by simp_all
      from st [OF k(1)] obtain i where "lexstep n low upp i (?c k) (?c (Suc k))" "?c (Suc k) ! i = upp ! i"
        by blast
      from vrank_step [OF this strict] Suc.IH [OF k(2)] show ?case by simp
    qed
    have "vrank upp n upp + 1 = 2 ^ n" by (rule vrank_all_upp) simp
    with vk [OF le_refl] up have "m + 1 = 2 ^ n" by simp
    then show ?thesis by simp
  qed
  from p dn ds el cnt show ?thesis by blast
qed

text \<open>
  For every non-empty box of dimension at least 1 the full traversal of the mode-2
  iterator returns and emits distinct points, every coordinate of which is the lower or
  the upper limit of its axis; when \<open>low[i] < upp[i]\<close> on every axis it emits exactly
  \<open>2^d\<close> points, the value of \<open>numPoints()\<close>.
\<close>

theorem vertex_traversal:
  assumes "gsGridIterator_ab a b opn = Inr it" "a \<noteq> []"
    "list_all2 (\<le>) (m_low it) (m_upp it)" "d = None \<or> d = Some (length a)"
    "nat (\<Prod>i<length a. m_upp it ! i - m_low it ! i + 1) \<le> fuel"
  shows "\<exists>ps fin. points VERTEX d fuel it = Some (ps, fin) \<and> \<not> hasNext fin \<and> distinct ps \<and>
           (\<forall>p\<in>set ps. length p = length a \<and>
                (\<forall>i<length a. p ! i = m_low it ! i \<or> p ! i = m_upp it ! i)) \<and>
           (list_all2 (<) (m_low it) (m_upp it) \<longrightarrow>
              length ps = 2 ^ length a \<and> numPoints VERTEX it = Inr (int (length ps)))"
proof -
  from assms(1) have r: "reset3 a b opn = Inr it" by (simp add: gsGridIterator_ab_def)
  from reset3_live [OF r assms(2,3,4)]
  have lv: "live d (length a) (m_low it) (m_upp it) it" and c: "m_cur it = m_low it" by auto
  have len: "length (m_low it) = length a" "length (m_upp it) = length a"
    using lv by (simp_all add: live_def)
  have fu: "nat (stride_at (m_low it) (m_upp it) (length a)) \<le> fuel"
    using assms(5) by (simp add: stride_at_def)
  from vertex_walk [OF lv c fu] obtain ps fin where
    p: "points VERTEX d fuel it = Some (ps, fin)" "\<not> hasNext fin" "distinct ps"
    and el: "\<forall>p\<in>set ps. inbox (length a) (m_low it) (m_upp it) p \<and> corner (length a) (m_low it) (m_upp it) p"
    and cnt: "(\<forall>j<length a. m_low it ! j < m_upp it ! j) \<longrightarrow> length ps = 2 ^ length a"
    by blast
  have 1: "\<forall>p\<in>set ps. length p = length a \<and>
                (\<forall>i<length a. p ! i = m_low it ! i \<or> p ! i = m_upp it ! i)"
    using el by (simp add: inbox_def corner_def)
  have 2: "length ps = 2 ^ length a \<and> numPoints VERTEX it = Inr (int (length ps))"
    if "list_all2 (<) (m_low it) (m_upp it)"
  proof -
    from that have "\<forall>j<length a. m_low it ! j < m_upp it ! j"
      using len by (simp add: list_all2_conv_all_nth)
    with cnt have "length ps = 2 ^ length a" by simp
    then show ?thesis using len by (simp add: numPoints_def)
  qed
  from p 1 2 show ?thesis by blast
qed

text \<open>The corners of the box \<open>[0,0]..[2,2]\<close>.\<close>

lemma vertex_example:
  "points VERTEX None 4 \<lparr> m_low = [0, 0], m_upp = [2, 2], m_cur = [0, 0], m_dim = 2 \<rparr>
     = Some ([[0, 0], [2, 0], [0, 2], [2, 2]], \<lparr> m_low = [0, 0], m_upp = [2, 2], m_cur = [0, 0], m_dim = 0 \<rparr>) \<and>
   numPoints VERTEX \<lparr> m_low = [0, 0], m_upp = [2, 2], m_cur = [0, 0], m_dim = 2 \<rparr> = Inr 4"
  by code_simp

text \<open>
  Claim C6. A full mode-2 traversal does not emit \<open>2^d\<close> points on a box with an axis of
  extent 1: for \<open>low = [0,0]\<close>, \<open>upp = [0,2]\<close> it emits the 2 distinct corners, and
  \<open>numPoints()\<close> is \<open>2^2 = 4\<close>.
\<close>

theorem vertex_numPoints_extent_one:
  "gsGridIterator_ab [0, 0] [0, 2] False
     = Inr \<lparr> m_low = [0, 0], m_upp = [0, 2], m_cur = [0, 0], m_dim = 2 \<rparr> \<and>
   points VERTEX None 4 \<lparr> m_low = [0, 0], m_upp = [0, 2], m_cur = [0, 0], m_dim = 2 \<rparr>
     = Some ([[0, 0], [0, 2]], \<lparr> m_low = [0, 0], m_upp = [0, 2], m_cur = [0, 0], m_dim = 0 \<rparr>) \<and>
   numPoints VERTEX \<lparr> m_low = [0, 0], m_upp = [0, 2], m_cur = [0, 0], m_dim = 2 \<rparr> = Inr 4"
  by code_simp

section \<open>Floor and ceiling\<close>

text \<open>What the two tests compute, in every mode.\<close>

lemma isFloor_iff: "isFloor it i \<longleftrightarrow> m_cur it ! i = m_low it ! i"
  by (simp add: isFloor_def)

lemma isCeil_iff:
  "isCeil mode it i \<longleftrightarrow>
     (if mode = CUBE then m_cur it ! i + 1 = m_upp it ! i else m_cur it ! i = m_upp it ! i)"
  by (simp add: isCeil_def)

text \<open>
  Claim C4. In mode 0 \<open>isCeil(i)\<close> does not test whether the coordinate equals the stored
  upper bound: over \<open>[0, 2]\<close> it is true at the point 1 and false at the point 2, the upper
  bound. (In the modes 1 and 2 it is \<open>m_cur[i] == m_upp[i]\<close>, and \<open>isFloor(i)\<close> is
  \<open>m_cur[i] == m_low[i]\<close> in every mode.)
\<close>

theorem isCeil_cube_off_by_one:
  "gsGridIterator_ab [0] [2] False = Inr \<lparr> m_low = [0], m_upp = [2], m_cur = [0], m_dim = 1 \<rparr> \<and>
   incr CUBE None \<lparr> m_low = [0], m_upp = [2], m_cur = [0], m_dim = 1 \<rparr>
     = \<lparr> m_low = [0], m_upp = [2], m_cur = [1], m_dim = 1 \<rparr> \<and>
   isCeil CUBE \<lparr> m_low = [0], m_upp = [2], m_cur = [1], m_dim = 1 \<rparr> 0 \<and>
   incr CUBE None \<lparr> m_low = [0], m_upp = [2], m_cur = [1], m_dim = 1 \<rparr>
     = \<lparr> m_low = [0], m_upp = [2], m_cur = [2], m_dim = 1 \<rparr> \<and>
   \<not> isCeil CUBE \<lparr> m_low = [0], m_upp = [2], m_cur = [2], m_dim = 1 \<rparr> 0"
  by code_simp

section \<open>Empty boxes\<close>

text \<open>
  Claim C9. Constructing or resetting an integer lattice iterator with bounds of equal
  dimension whose box is empty (after the shift of the open mode, the upper bound is
  below the lower bound on some axis \<open>i\<close>) does not fail: the iterator it yields
  converts to false at once and its traversal emits no point, in every mode.
\<close>

theorem empty_box_exhausted:
  assumes "length a = length b" "i < length a"
    "(if opn then map (\<lambda>x. x - 1) b else b) ! i < a ! i"
  shows "\<exists>it. reset3 a b opn = Inr it \<and> gsGridIterator_ab a b opn = Inr it \<and>
              \<not> hasNext it \<and> points mode d fuel it = Some ([], it) \<and>
              reset0 it = Inr it"
proof -
  define upp where "upp = (if opn then map (\<lambda>x. x - 1) b else b)"
  have lu: "length upp = length a" using assms(1) by (simp add: upp_def)
  have "\<not> list_all2 (\<le>) a upp"
    using assms(2,3) by (auto simp: list_all2_conv_all_nth upp_def [symmetric])
  then have r: "reset3 a b opn = Inr \<lparr> m_low = a, m_upp = upp, m_cur = a, m_dim = 0 \<rparr>"
    using assms(1) by (simp add: reset3_def upp_def Let_def)
  have h: "\<not> hasNext \<lparr> m_low = a, m_upp = upp, m_cur = a, m_dim = 0 \<rparr>" by (simp add: hasNext_def)
  have p: "points mode d fuel \<lparr> m_low = a, m_upp = upp, m_cur = a, m_dim = 0 \<rparr>
           = Some ([], \<lparr> m_low = a, m_upp = upp, m_cur = a, m_dim = 0 \<rparr>)"
    using h by (cases fuel) (simp_all add: points_def)
  have r0: "reset0 \<lparr> m_low = a, m_upp = upp, m_cur = a, m_dim = 0 \<rparr>
            = Inr \<lparr> m_low = a, m_upp = upp, m_cur = a, m_dim = 0 \<rparr>"
    using \<open>\<not> list_all2 (\<le>) a upp\<close> lu by (simp add: reset0_def reset3_def)
  from r h p r0 show ?thesis by (simp add: gsGridIterator_ab_def)
qed

theorem empty_box_exhausted_witness:
  "gsGridIterator_ab [0, 0] [3, 0] True = Inr \<lparr> m_low = [0, 0], m_upp = [2, -1], m_cur = [0, 0], m_dim = 0 \<rparr> \<and>
   \<not> hasNext \<lparr> m_low = [0, 0], m_upp = [2, -1], m_cur = [0, 0], m_dim = 0 \<rparr> \<and>
   points BDR None 5 \<lparr> m_low = [0, 0], m_upp = [2, -1], m_cur = [0, 0], m_dim = 0 \<rparr>
     = Some ([], \<lparr> m_low = [0, 0], m_upp = [2, -1], m_cur = [0, 0], m_dim = 0 \<rparr>)"
  using empty_box_exhausted [of "[0, 0]" "[3, 0]" 1 True BDR None 5]
  by (simp add: gsGridIterator_ab_def reset3_def)

section \<open>Reset\<close>

lemma reset0_after:
  assumes "reset3 a b opn = Inr it" "m_low s = m_low it" "m_upp s = m_upp it"
  shows "reset0 s = Inr it"
proof -
  from assms(1) have l: "length a = length b" by (auto simp: reset3_def split: if_splits)
  with assms(1) have it: "it = \<lparr> m_low = a, m_upp = (if opn then map (\<lambda>x. x - 1) b else b), m_cur = a,
      m_dim = (if list_all2 (\<le>) a (if opn then map (\<lambda>x. x - 1) b else b) then length a else 0) \<rparr>"
    by (simp add: reset3_def Let_def)
  show ?thesis unfolding reset0_def assms(2,3)
    by (subst (1 2 3) it) (use l in \<open>auto simp: reset3_def\<close>)
qed

lemma traverse_fin:
  assumes "traverse has get nxt fuel s = Some (ps, fin)"
  shows "\<exists>m. fin = (nxt ^^ m) s"
  using traverse_sound [OF assms] by blast

lemma incrT_fields [simp]:
  "t_low (incrT ops mode d it) = t_low it" "t_upp (incrT ops mode d it) = t_upp it"
  "t_step (incrT ops mode d it) = t_step it"
  "m_low (t_iter (incrT ops mode d it)) = m_low (t_iter it)"
  "m_upp (t_iter (incrT ops mode d it)) = m_upp (t_iter it)"
  by (simp_all add: incrT_def Let_def)

lemma funpow_incrT_fields [simp]:
  "t_low ((incrT ops mode d ^^ k) it) = t_low it" "t_upp ((incrT ops mode d ^^ k) it) = t_upp it"
  "t_step ((incrT ops mode d ^^ k) it) = t_step it"
  "m_low (t_iter ((incrT ops mode d ^^ k) it)) = m_low (t_iter it)"
  "m_upp (t_iter ((incrT ops mode d ^^ k) it)) = m_upp (t_iter it)"
  by (induction k) simp_all

lemma resetT0_after:
  assumes "gsGridIteratorT_abn ops a b np = Inr ut"
    "t_low s = t_low ut" "t_upp s = t_upp ut" "t_step s = t_step ut"
    "m_low (t_iter s) = m_low (t_iter ut)" "m_upp (t_iter s) = m_upp (t_iter ut)"
  shows "resetT0 s = Inr ut"
proof -
  from assms(1) obtain li where li: "gsGridIterator_b np True = Inr li"
    and r2: "resetT2 ops a b \<lparr> t_low = [], t_upp = [], t_step = [], t_iter = li, t_cur = [] \<rparr> = Inr ut"
    by (auto simp: gsGridIteratorT_abn_def split: sum.splits)
  from li have r3: "reset3 (replicate (length np) 0) np True = Inr li"
    by (simp add: gsGridIterator_b_def)
  have rl: "reset0 li = Inr li" by (rule reset0_after [OF r3]) simp_all
  from r2 rl have ut: "ut = \<lparr> t_low = a, t_upp = b,
                t_step = map2 (s_div ops) (map2 (s_sub ops) b a)
                           (map (\<lambda>n. s_cast ops (max (n - 1) 1)) (numPointsCwise li)),
                t_iter = li, t_cur = a \<rparr>"
    by (simp add: resetT2_def)
  have b: "m_low (t_iter s) = m_low li" "m_upp (t_iter s) = m_upp li"
    using assms(5,6) by (simp_all add: ut)
  have rs: "reset0 (t_iter s) = Inr li" by (rule reset0_after [OF r3 b])
  show ?thesis unfolding resetT0_def rs using assms(2,3,4) by (simp add: ut)
qed

lemma fold_coeffs:
  "r \<le> length (coeffs cur) \<Longrightarrow>
   rows (fold (\<lambda>i cur. cur\<lparr> coeffs := (coeffs cur)[i := v i] \<rparr>) [0 ..< r] cur) = rows cur \<and>
   cols (fold (\<lambda>i cur. cur\<lparr> coeffs := (coeffs cur)[i := v i] \<rparr>) [0 ..< r] cur) = cols cur \<and>
   coeffs (fold (\<lambda>i cur. cur\<lparr> coeffs := (coeffs cur)[i := v i] \<rparr>) [0 ..< r] cur)
     = map (\<lambda>j. if j < r then v j else coeffs cur ! j) [0 ..< length (coeffs cur)]"
  for cur :: "'b gsMatrix"
proof (induction r)
  case 0
  show ?case by (simp add: map_nth)
next
  case (Suc r)
  then have ih: "rows (fold (\<lambda>i cur. cur\<lparr> coeffs := (coeffs cur)[i := v i] \<rparr>) [0 ..< r] cur) = rows cur"
    "cols (fold (\<lambda>i cur. cur\<lparr> coeffs := (coeffs cur)[i := v i] \<rparr>) [0 ..< r] cur) = cols cur"
    "coeffs (fold (\<lambda>i cur. cur\<lparr> coeffs := (coeffs cur)[i := v i] \<rparr>) [0 ..< r] cur)
     = map (\<lambda>j. if j < r then v j else coeffs cur ! j) [0 ..< length (coeffs cur)]"
    by simp_all
  have "(map (\<lambda>j. if j < r then v j else coeffs cur ! j) [0 ..< length (coeffs cur)])[r := v r]
        = map (\<lambda>j. if j < Suc r then v j else coeffs cur ! j) [0 ..< length (coeffs cur)]"
    by (rule nth_equalityI) (auto simp: nth_list_update less_Suc_eq)
  with ih show ?case by simp
qed

text \<open>
  \<open>update\<close> depends on the current point only through its shape and through the
  coefficients it does not write.
\<close>

lemma update_cong:
  assumes "c_cwise s = c_cwise t" "c_iter s = c_iter t"
    "rows (c_cur s) = rows (c_cur t)" "cols (c_cur s) = cols (c_cur t)"
    "length (coeffs (c_cur s)) = length (coeffs (c_cur t))"
    "rows (c_cur t) \<le> length (coeffs (c_cur t))"
    "\<forall>j. rows (c_cur t) \<le> j \<and> j < length (coeffs (c_cur t)) \<longrightarrow> coeffs (c_cur s) ! j = coeffs (c_cur t) ! j"
    "gsGridIteratorC.more s = gsGridIteratorC.more t" "gsMatrix.more (c_cur s) = gsMatrix.more (c_cur t)"
  shows "update s = update t"
proof -
  let ?v = "\<lambda>i. mat_at (c_cwise t ! i) (m_cur (c_iter t) ! i)"
  let ?f = "\<lambda>cur. fold (\<lambda>i cur. cur\<lparr> coeffs := (coeffs cur)[i := ?v i] \<rparr>) [0 ..< rows (c_cur t)] cur"
  have fs: "rows (?f (c_cur s)) = rows (c_cur s)" "cols (?f (c_cur s)) = cols (c_cur s)"
    "coeffs (?f (c_cur s)) = map (\<lambda>j. if j < rows (c_cur t) then ?v j else coeffs (c_cur s) ! j)
                               [0 ..< length (coeffs (c_cur s))]"
    using fold_coeffs [of "rows (c_cur t)" "c_cur s" ?v] assms(5,6) by simp_all
  have ft: "rows (?f (c_cur t)) = rows (c_cur t)" "cols (?f (c_cur t)) = cols (c_cur t)"
    "coeffs (?f (c_cur t)) = map (\<lambda>j. if j < rows (c_cur t) then ?v j else coeffs (c_cur t) ! j)
                               [0 ..< length (coeffs (c_cur t))]"
    using fold_coeffs [of "rows (c_cur t)" "c_cur t" ?v] assms(6) by simp_all
  have more: "gsMatrix.more (?f cur) = gsMatrix.more cur" for cur :: "'a option gsMatrix"
    and r :: nat
  proof -
    have "gsMatrix.more (fold (\<lambda>i cur. cur\<lparr> coeffs := (coeffs cur)[i := ?v i] \<rparr>) xs cur)
          = gsMatrix.more cur" for xs
      by (induction xs arbitrary: cur) simp_all
    then show ?thesis .
  qed
  have co: "coeffs (?f (c_cur s)) = coeffs (?f (c_cur t))"
    unfolding fs ft assms(5) using assms(7) by (intro map_cong) auto
  have "?f (c_cur s) = ?f (c_cur t)"
    by (rule gsMatrix.equality) (simp_all add: fs(1,2) ft(1,2) co assms(3,4,9) more)
  then show ?thesis
    unfolding update_def assms(1,2,3) by (intro gsGridIteratorC.equality) (simp_all add: assms)
qed

lemma update_agree:
  assumes "agree s t"
  shows "agree (update s) t"
proof -
  let ?v = "\<lambda>i. mat_at (c_cwise s ! i) (m_cur (c_iter s) ! i)"
  have le: "rows (c_cur s) \<le> length (coeffs (c_cur s))" using assms by (simp add: agree_def)
  from fold_coeffs [OF le, of ?v]
  have f: "rows (c_cur (update s)) = rows (c_cur s)" "cols (c_cur (update s)) = cols (c_cur s)"
    "coeffs (c_cur (update s)) = map (\<lambda>j. if j < rows (c_cur s) then ?v j else coeffs (c_cur s) ! j)
                               [0 ..< length (coeffs (c_cur s))]"
    by (simp_all add: update_def)
  have g: "c_cwise (update s) = c_cwise s" "c_iter (update s) = c_iter s"
    by (simp_all add: update_def)
  show ?thesis unfolding agree_def f g using assms by (auto simp: agree_def)
qed

lemma incrC_agree:
  assumes "agree s t"
  shows "agree (incrC d s) t"
proof -
  have "agree (s\<lparr> c_iter := incr CUBE d (c_iter s) \<rparr>) t"
    using assms by (simp add: agree_def)
  then show ?thesis unfolding incrC_def Let_def by (simp add: update_agree)
qed

lemma funpow_incrC_agree: "agree s t \<Longrightarrow> agree ((incrC d ^^ k) s) t"
  by (induction k) (simp_all add: incrC_agree)

lemma resetC_after:
  assumes "gsGridIteratorC_cwise cwise = Inr ct" "s = (incrC d ^^ k) ct"
  shows "resetC s = Inr ct"
proof -
  let ?cur0 = "(if 1 = rows (hd cwise)
                then \<lparr> rows = length cwise, cols = 1, coeffs = replicate (length cwise) None \<rparr>
                else \<lparr> rows = 1, cols = length cwise, coeffs = replicate (length cwise) None \<rparr>)"
  from assms(1) have ne: "cwise \<noteq> []" by (auto simp: gsGridIteratorC_cwise_def split: if_splits)
  from assms(1) obtain li where li: "gsGridIterator_b (map (\<lambda>m. int (rows m) - 1) cwise) False = Inr li"
    and ct: "ct = update \<lparr> c_cwise = cwise, c_iter = li, c_cur = ?cur0 \<rparr>"
    by (auto simp: gsGridIteratorC_cwise_def split: if_splits sum.splits)
  let ?c0 = "\<lparr> c_cwise = cwise, c_iter = li, c_cur = ?cur0 \<rparr>"
  have a0: "agree ?c0 ?c0" using ne by (auto simp: agree_def Suc_leI)
  have "agree ct ?c0" unfolding ct by (rule update_agree [OF a0])
  then have as: "agree s ?c0" unfolding assms(2) by (rule funpow_incrC_agree)
  from li have r3: "reset3 (replicate (length (map (\<lambda>m. int (rows m) - 1) cwise)) 0)
                      (map (\<lambda>m. int (rows m) - 1) cwise) False = Inr li"
    by (simp add: gsGridIterator_b_def)
  have rs: "reset0 (c_iter s) = Inr li"
    by (rule reset0_after [OF r3]) (use as in \<open>simp_all add: agree_def\<close>)
  have "update (s\<lparr> c_iter := li \<rparr>) = update ?c0"
    by (rule update_cong) (use as in \<open>simp_all add: agree_def\<close>)
  then show ?thesis unfolding resetC_def rs ct by simp
qed

text \<open>
  Claim C8. For each of the three iterators: after a full traversal to exhaustion, the
  no-argument \<open>reset()\<close> succeeds and gives back the iterator as it was constructed, so a
  second full traversal emits the same sequence of points as the first. For the integer
  lattice iterator this holds in every mode and also when it was constructed with
  \<open>open = true\<close>: the reset reuses the stored, already shifted bounds as a closed range.
\<close>

theorem reset_replays:
  assumes "gsGridIterator_ab a b opn = Inr it" "points mode d fuel it = Some (ps, fin)"
    "gsGridIteratorT_abn ops ta tb np = Inr ut" "samples ops mode' d' fuel' ut = Some (qs, ufin)"
    "gsGridIteratorC_cwise cwise = Inr ct" "pointsC d'' fuel'' ct = Some (rs, cfin)"
  shows "(\<exists>it'. reset0 fin = Inr it' \<and> it' = it \<and> points mode d fuel it' = Some (ps, fin)) \<and>
         (\<exists>ut'. resetT0 ufin = Inr ut' \<and> ut' = ut \<and> samples ops mode' d' fuel' ut' = Some (qs, ufin)) \<and>
         (\<exists>ct'. resetC cfin = Inr ct' \<and> ct' = ct \<and> pointsC d'' fuel'' ct' = Some (rs, cfin))"
proof -
  from assms(1) have r: "reset3 a b opn = Inr it" by (simp add: gsGridIterator_ab_def)
  from traverse_fin [OF assms(2) [unfolded points_def]] obtain m where "fin = (incr mode d ^^ m) it" ..
  then have 1: "reset0 fin = Inr it" by (intro reset0_after [OF r]) simp_all
  from traverse_fin [OF assms(4) [unfolded samples_def]] obtain m' where
    "ufin = (incrT ops mode' d' ^^ m') ut" ..
  then have 2: "resetT0 ufin = Inr ut" by (intro resetT0_after [OF assms(3)]) simp_all
  from traverse_fin [OF assms(6) [unfolded pointsC_def]] obtain m'' where
    "cfin = (incrC d'' ^^ m'') ct" ..
  then have 3: "resetC cfin = Inr ct" by (rule resetC_after [OF assms(5)])
  from 1 2 3 assms show ?thesis by simp
qed

theorem reset_replays_witness:
  "gsGridIterator_ab [0, 0] [2, 2] True = Inr \<lparr> m_low = [0, 0], m_upp = [1, 1], m_cur = [0, 0], m_dim = 2 \<rparr> \<and>
   points CUBE None 4 \<lparr> m_low = [0, 0], m_upp = [1, 1], m_cur = [0, 0], m_dim = 2 \<rparr>
     = Some ([[0, 0], [1, 0], [0, 1], [1, 1]], \<lparr> m_low = [0, 0], m_upp = [1, 1], m_cur = [0, 0], m_dim = 0 \<rparr>) \<and>
   reset0 \<lparr> m_low = [0, 0], m_upp = [1, 1], m_cur = [0, 0], m_dim = 0 \<rparr>
     = Inr \<lparr> m_low = [0, 0], m_upp = [1, 1], m_cur = [0, 0], m_dim = 2 \<rparr> \<and>
   (\<exists>ut qs ufin.
      gsGridIteratorT_abn \<lparr> s_add = (+), s_sub = (-), s_mul = (*), s_div = (/), s_cast = rat_of_int \<rparr>
        [0] [1] [3] = Inr ut \<and>
      samples \<lparr> s_add = (+), s_sub = (-), s_mul = (*), s_div = (/), s_cast = rat_of_int \<rparr>
        BDR None 3 ut = Some (qs, ufin) \<and> map snd qs = [[0], [1]] \<and> resetT0 ufin = Inr ut) \<and>
   (\<exists>ct rs cfin.
      gsGridIteratorC_cwise [\<lparr> rows = 2, cols = 1, coeffs = [0 :: int, 10] \<rparr>] = Inr ct \<and>
      pointsC None 2 ct = Some (rs, cfin) \<and> map coeffs rs = [[Some 0], [Some 10]] \<and>
      resetC cfin = Inr ct)"
proof -
  let ?it = "\<lparr> m_low = [0, 0], m_upp = [1, 1], m_cur = [0, 0], m_dim = 2 \<rparr>"
  let ?fin = "\<lparr> m_low = [0, 0], m_upp = [1, 1], m_cur = [0, 0], m_dim = 0 \<rparr>"
  let ?ops = "\<lparr> s_add = (+), s_sub = (-), s_mul = (*), s_div = (/), s_cast = rat_of_int \<rparr>"
  let ?li = "\<lparr> m_low = [0], m_upp = [2], m_cur = [0], m_dim = 1 \<rparr>"
  let ?ut = "\<lparr> t_low = [0], t_upp = [1], t_step = [1 / 2], t_iter = ?li, t_cur = [0 :: rat] \<rparr>"
  let ?ufin = "\<lparr> t_low = [0], t_upp = [1], t_step = [1 / 2],
                 t_iter = \<lparr> m_low = [0], m_upp = [2], m_cur = [2], m_dim = 0 \<rparr>, t_cur = [1 :: rat] \<rparr>"
  let ?cw = "[\<lparr> rows = 2, cols = 1, coeffs = [0 :: int, 10] \<rparr>]"
  let ?ct = "\<lparr> c_cwise = ?cw, c_iter = \<lparr> m_low = [0], m_upp = [1], m_cur = [0], m_dim = 1 \<rparr>,
               c_cur = \<lparr> rows = 1, cols = 1, coeffs = [Some 0] \<rparr> \<rparr>"
  let ?cfin = "\<lparr> c_cwise = ?cw, c_iter = \<lparr> m_low = [0], m_upp = [1], m_cur = [0], m_dim = 0 \<rparr>,
               c_cur = \<lparr> rows = 1, cols = 1, coeffs = [Some 10] \<rparr> \<rparr>"
  have 1: "gsGridIterator_ab [0, 0] [2, 2] True = Inr ?it" by code_simp
  have 2: "points CUBE None 4 ?it = Some ([[0, 0], [1, 0], [0, 1], [1, 1]], ?fin)" by code_simp
  have 3: "gsGridIteratorT_abn ?ops [0] [1] [3] = Inr ?ut" by code_simp
  have 4: "samples ?ops BDR None 3 ?ut = Some ([([0], [0]), ([2], [1])], ?ufin)" by code_simp
  have 5: "gsGridIteratorC_cwise ?cw = Inr ?ct" by code_simp
  have 6: "pointsC None 2 ?ct
           = Some ([\<lparr> rows = 1, cols = 1, coeffs = [Some 0] \<rparr>, \<lparr> rows = 1, cols = 1, coeffs = [Some 10] \<rparr>], ?cfin)"
    by code_simp
  from reset_replays [OF 1 2 3 4 5 6]
  have r: "reset0 ?fin = Inr ?it" "resetT0 ?ufin = Inr ?ut" "resetC ?cfin = Inr ?ct" by simp_all
  have u: "\<exists>ut qs ufin. gsGridIteratorT_abn ?ops [0] [1] [3] = Inr ut \<and>
      samples ?ops BDR None 3 ut = Some (qs, ufin) \<and> map snd qs = [[0], [1]] \<and> resetT0 ufin = Inr ut"
    using 3 4 r(2) by (intro exI [of _ ?ut] exI [of _ "[([0], [0]), ([2], [1])]"] exI [of _ ?ufin]) simp
  have c: "\<exists>ct rs cfin. gsGridIteratorC_cwise ?cw = Inr ct \<and>
      pointsC None 2 ct = Some (rs, cfin) \<and> map coeffs rs = [[Some 0], [Some 10]] \<and> resetC cfin = Inr ct"
    using 5 6 r(3)
    by (intro exI [of _ ?ct] exI [of _ "[\<lparr> rows = 1, cols = 1, coeffs = [Some 0] \<rparr>, \<lparr> rows = 1, cols = 1, coeffs = [Some 10] \<rparr>]"] exI [of _ ?cfin]) simp
  from 1 2 r(1) u c show ?thesis by blast
qed

section \<open>The uniform sample iterator\<close>

lemma fold_set_all:
  "m \<le> length c \<Longrightarrow>
   length (fold (\<lambda>i c. c[i := v i]) [0 ..< m] c) = length c \<and>
   (\<forall>j<length c. fold (\<lambda>i c. c[i := v i]) [0 ..< m] c ! j = (if j < m then v j else c ! j))"
proof (induction m)
  case 0
  show ?case by simp
next
  case (Suc m)
  then show ?case by (auto simp: nth_list_update less_Suc_eq)
qed

lemma t_iter_incrT [simp]: "t_iter (incrT ops mode d s) = incr mode d (t_iter s)"
  by (simp add: incrT_def Let_def)

lemma t_iter_funpow [simp]: "t_iter ((incrT ops mode d ^^ k) s) = (incr mode d ^^ k) (t_iter s)"
  by (induction k) simp_all

lemma incrT_cur:
  assumes "hasNext (incr mode d (t_iter s))" "length (t_cur s) = n" "length (t_low s) = n"
    "d = None \<or> d = Some n"
  shows "length (t_cur (incrT ops mode d s)) = n \<and>
         (\<forall>i<n. t_cur (incrT ops mode d s) ! i = coord ops mode s (incr mode d (t_iter s)) i)"
proof -
  have e: "(case d of None \<Rightarrow> length (t_low s) | Some k \<Rightarrow> k) = n"
    using assms(3,4) by auto
  have c: "t_cur (incrT ops mode d s)
           = fold (\<lambda>i c. c[i := coord ops mode s (incr mode d (t_iter s)) i]) [0 ..< n] (t_cur s)"
    using assms(1) by (simp add: incrT_def Let_def e coord_def)
  show ?thesis unfolding c
    using fold_set_all [of n "t_cur s" "coord ops mode s (incr mode d (t_iter s))"] assms(2) by simp
qed

lemma coord_cong:
  "t_low s = t_low t \<Longrightarrow> t_upp s = t_upp t \<Longrightarrow> t_step s = t_step t \<Longrightarrow>
   coord ops mode s li i = coord ops mode t li i"
  by (simp add: coord_def)

text \<open>
  While the integer iterator is live, the current point of the sample iterator is the
  one computed from the current tensor index.
\<close>

lemma samples_invariant:
  assumes "\<forall>j\<le>k. hasNext ((incr mode d ^^ j) (t_iter ut))"
    "length (t_cur ut) = n" "length (t_low ut) = n" "d = None \<or> d = Some n"
    "\<forall>i<n. t_cur ut ! i = coord ops mode ut (t_iter ut) i"
  shows "length (t_cur ((incrT ops mode d ^^ k) ut)) = n \<and>
         (\<forall>i<n. t_cur ((incrT ops mode d ^^ k) ut) ! i
                 = coord ops mode ut ((incr mode d ^^ k) (t_iter ut)) i)"
  using assms(1)
proof (induction k)
  case 0
  show ?case using assms(2,5) by simp
next
  case (Suc k)
  let ?s = "(incrT ops mode d ^^ k) ut"
  have ih: "length (t_cur ?s) = n" using Suc by simp
  have "hasNext ((incr mode d ^^ Suc k) (t_iter ut))" using Suc.prems by blast
  then have h: "hasNext (incr mode d (t_iter ?s))" by simp
  have l: "length (t_low ?s) = n" using assms(3) by simp
  from incrT_cur [OF h ih l assms(4), of ops]
  have "length (t_cur (incrT ops mode d ?s)) = n"
    "\<forall>i<n. t_cur (incrT ops mode d ?s) ! i = coord ops mode ?s (incr mode d (t_iter ?s)) i" by auto
  moreover have "coord ops mode ?s li i = coord ops mode ut li i" for li i
    by (rule coord_cong) simp_all
  ultimately show ?case by simp
qed

lemma abn_shape:
  assumes "gsGridIteratorT_abn ops a b np = Inr ut"
  shows "t_low ut = a \<and> t_upp ut = b \<and> t_cur ut = a \<and>
         t_step ut = map2 (s_div ops) (map2 (s_sub ops) b a) (map (\<lambda>n. s_cast ops (max (n - 1) 1)) np) \<and>
         t_iter ut = \<lparr> m_low = replicate (length np) 0, m_upp = map (\<lambda>x. x - 1) np,
                       m_cur = replicate (length np) 0,
                       m_dim = (if list_all2 (\<le>) (replicate (length np) 0) (map (\<lambda>x. x - 1) np)
                                then length np else 0) \<rparr>"
proof -
  let ?li = "\<lparr> m_low = replicate (length np) 0, m_upp = map (\<lambda>x. x - 1) np,
                       m_cur = replicate (length np) 0,
                       m_dim = (if list_all2 (\<le>) (replicate (length np) 0) (map (\<lambda>x. x - 1) np)
                                then length np else 0) \<rparr>"
  have li: "gsGridIterator_b np True = Inr ?li"
    by (simp add: gsGridIterator_b_def reset3_def)
  have r0: "reset0 ?li = Inr ?li" by (simp add: reset0_def reset3_def)
  have npc: "numPointsCwise ?li = np"
    by (rule nth_equalityI) (simp_all add: numPointsCwise_def)
  from assms show ?thesis
    unfolding gsGridIteratorT_abn_def li by (auto simp: resetT2_def r0 npc)
qed

text \<open>
  The full traversal of a sample iterator built from \<open>(a, b, np)\<close> with \<open>np[i] \<ge> 1\<close>: it
  returns, and each emitted point is the one computed from its tensor index; the first
  tensor index is the zero vector, the last is \<open>np - 1\<close>.
\<close>

lemma samples_walk:
  assumes "gsGridIteratorT_abn ops a b np = Inr ut" "np \<noteq> []" "length a = length np"
    "list_all (\<lambda>n. 1 \<le> n) np" "d = None \<or> d = Some (length np)"
    "nat (prod_list np) \<le> fuel" "mode \<noteq> CWISE"
  shows "\<exists>qs ufin. samples ops mode d fuel ut = Some (qs, ufin) \<and> qs \<noteq> [] \<and>
           hd qs = (replicate (length np) 0, a) \<and> fst (last qs) = map (\<lambda>x. x - 1) np \<and>
           (\<forall>(q, p) \<in> set qs. length q = length np \<and> length p = length np \<and>
              (\<forall>i<length np. 0 \<le> q ! i \<and> q ! i \<le> np ! i - 1 \<and>
                 p ! i = (if q ! i = 0 then a ! i
                          else if (if mode \<noteq> CUBE then q ! i = np ! i - 1 else q ! i + 1 = np ! i - 1) then b ! i
                          else s_add ops (a ! i) (s_mul ops (s_cast ops (q ! i)) (t_step ut ! i)))))"
proof -
  define n where "n = length np"
  define low0 :: "int list" where "low0 = replicate n 0"
  define upp0 where "upp0 = map (\<lambda>x. x - 1) np"
  have np1: "\<forall>i<n. 1 \<le> np ! i" using assms(4) by (simp add: list_all_length n_def)
  have np0: "\<forall>i<length np. 0 < np ! i"
  proof (intro allI impI)
    fix i assume "i < length np"
    with np1 have "1 \<le> np ! i" by (simp add: n_def)
    then show "0 < np ! i" by simp
  qed
  have ne: "list_all2 (\<le>) low0 upp0"
    using np0 by (simp add: list_all2_conv_all_nth low0_def upp0_def n_def)
  define li where "li = \<lparr> m_low = low0, m_upp = upp0, m_cur = low0, m_dim = n \<rparr>"
  from abn_shape [OF assms(1)] ne
  have ut: "t_low ut = a" "t_upp ut = b" "t_cur ut = a" "t_iter ut = li"
    by (simp_all add: li_def low0_def upp0_def n_def)
  have npos: "0 < n" using assms(2) by (simp add: n_def)
  have lv: "live d n low0 upp0 li"
    using npos assms(5) np0 by (simp add: live_def li_def inbox_def low0_def upp0_def n_def)
  from walk [OF lv assms(7)] obtain m where
    lvk: "\<forall>k\<le>m. live d n low0 upp0 ((incr mode d ^^ k) li)"
    and up: "m_cur ((incr mode d ^^ m) li) = upp0"
    and dn: "\<not> hasNext ((incr mode d ^^ Suc m) li)"
    and bd: "rank low0 upp0 n (m_cur li) + int m < stride_at low0 upp0 n" by auto
  have "stride_at low0 upp0 n = (\<Prod>i<n. np ! i)"
    unfolding stride_at_def by (intro prod.cong) (simp_all add: low0_def upp0_def n_def)
  then have st: "stride_at low0 upp0 n = prod_list np" by (simp add: prod_list_nth n_def)
  have r0: "rank low0 upp0 n (m_cur li) = 0" by (rule rank_all_low) (simp add: li_def)
  have fu: "Suc m \<le> fuel" using bd r0 st assms(6) by linarith
  let ?g = "\<lambda>s. (tensorIndex s, derefT s)"
  let ?qs = "map (\<lambda>k. ?g ((incrT ops mode d ^^ k) ut)) [0 ..< Suc m]"
  have hk: "hasNext ((incr mode d ^^ k) li)" if "k \<le> m" for k
    using lvk that live_hasNext by blast
  have p: "samples ops mode d fuel ut = Some (?qs, (incrT ops mode d ^^ Suc m) ut)"
    unfolding samples_def
  proof (rule traverse_complete)
    show "\<forall>k<Suc m. hasNextT ((incrT ops mode d ^^ k) ut)"
      using hk by (simp add: hasNextT_def ut less_Suc_eq_le)
    show "\<not> hasNextT ((incrT ops mode d ^^ Suc m) ut)"
      using dn by (simp add: hasNextT_def ut)
    show "Suc m \<le> fuel" by (rule fu)
  qed
  have c0: "\<forall>i<n. t_cur ut ! i = coord ops mode ut (t_iter ut) i"
    by (simp add: coord_def isFloor_def ut li_def)
  have inv: "length (t_cur ((incrT ops mode d ^^ k) ut)) = n \<and>
         (\<forall>i<n. t_cur ((incrT ops mode d ^^ k) ut) ! i
                 = coord ops mode ut ((incr mode d ^^ k) li) i)" if "k \<le> m" for k
  proof -
    have h: "\<forall>j\<le>k. hasNext ((incr mode d ^^ j) (t_iter ut))" using hk that by (simp add: ut)
    from samples_invariant [OF h _ _ _ c0] assms(3,5) show ?thesis
      by (simp add: ut n_def)
  qed
  have el: "length q = n \<and> length p = n \<and>
              (\<forall>i<n. 0 \<le> q ! i \<and> q ! i \<le> np ! i - 1 \<and>
                 p ! i = (if q ! i = 0 then a ! i
                          else if (if mode \<noteq> CUBE then q ! i = np ! i - 1 else q ! i + 1 = np ! i - 1) then b ! i
                          else s_add ops (a ! i) (s_mul ops (s_cast ops (q ! i)) (t_step ut ! i))))"
    if "(q, p) \<in> set ?qs" for q p
  proof -
    from that obtain k where k: "k \<le> m" and q: "q = m_cur ((incr mode d ^^ k) li)"
      and pp: "p = t_cur ((incrT ops mode d ^^ k) ut)"
      by (auto simp: tensorIndex_def derefT_def deref_def ut less_Suc_eq_le simp del: upt_Suc)
    let ?s = "(incr mode d ^^ k) li"
    have l: "inbox n low0 upp0 (m_cur ?s)"
      using lvk k by (simp add: live_def)
    have ml: "m_low ?s = low0" "m_upp ?s = upp0" by (simp_all add: li_def)
    have b: "\<forall>i<n. 0 \<le> q ! i \<and> q ! i \<le> np ! i - 1" "length q = n"
      using l by (simp_all add: inbox_def q low0_def upp0_def n_def)
    have "coord ops mode ut ?s i = (if q ! i = 0 then a ! i
                          else if (if mode \<noteq> CUBE then q ! i = np ! i - 1 else q ! i + 1 = np ! i - 1) then b ! i
                          else s_add ops (a ! i) (s_mul ops (s_cast ops (q ! i)) (t_step ut ! i)))"
      if "i < n" for i
    proof -
      have fl: "isFloor ?s i \<longleftrightarrow> q ! i = 0"
        unfolding isFloor_def ml q using that by (simp add: low0_def)
      have ce: "isCeil mode ?s i
                \<longleftrightarrow> (if mode \<noteq> CUBE then q ! i = np ! i - 1 else q ! i + 1 = np ! i - 1)"
        unfolding isCeil_def ml q using that by (simp add: upp0_def n_def)
      show ?thesis unfolding coord_def fl ce ut q ..
    qed
    with inv [OF k] b show ?thesis by (simp add: pp)
  qed
  have hd: "hd ?qs = (replicate (length np) 0, a)"
    by (simp add: upt_conv_Cons tensorIndex_def derefT_def deref_def ut li_def low0_def n_def del: upt_Suc)
  have la: "fst (last ?qs) = map (\<lambda>x. x - 1) np"
    using up by (simp add: tensorIndex_def deref_def ut upp0_def)
  have nn: "?qs \<noteq> []" by simp
  from p nn hd la el show ?thesis unfolding n_def by blast
qed

text \<open>
  In mode 0 the ceiling test of the integer iterator holds one index below the upper
  limit: with three samples over \<open>[0, 1]\<close> the middle sample is \<open>b\<close>, and the last one is
  computed as \<open>a + 2 * step\<close>.
\<close>

lemma cube_sampling_example:
  "samples \<lparr> s_add = (+), s_sub = (-), s_mul = (*), s_div = (/), s_cast = rat_of_int \<rparr> CUBE None 3
     \<lparr> t_low = [0], t_upp = [1], t_step = [1 / 2],
       t_iter = \<lparr> m_low = [0], m_upp = [2], m_cur = [0], m_dim = 1 \<rparr>, t_cur = [0] \<rparr>
   = Some ([([0], [0]), ([1], [1]), ([2], [1])],
           \<lparr> t_low = [0], t_upp = [1], t_step = [1 / 2],
             t_iter = \<lparr> m_low = [0], m_upp = [2], m_cur = [0], m_dim = 0 \<rparr>, t_cur = [1] \<rparr>)"
  by code_simp

text \<open>
  Claim C3, as amended. For the uniform sample iterator built from \<open>(a, b, np)\<close> with
  \<open>np[i] \<ge> 1\<close>, the full traversal returns, and for every emitted point and every axis
  \<open>i\<close>: in every mode the coordinate is \<open>a[i]\<close> when the tensor index on axis \<open>i\<close> is 0,
  and the first emitted point is \<open>a\<close>; in modes 1 and 2 the coordinate is \<open>b[i]\<close> when the
  tensor index is \<open>np[i] - 1\<close> and \<open>np[i] \<ge> 2\<close>, it is \<open>a[i] + index * step[i]\<close> when the
  tensor index is strictly between 0 and \<open>np[i] - 1\<close>, and the last emitted point is \<open>b\<close>
  when every \<open>np[i] \<ge> 2\<close>. The step is \<open>(b[i] - a[i]) / max(np[i] - 1, 1)\<close>. The
  arithmetic of the coordinate type is arbitrary.
\<close>

theorem sample_coordinates:
  assumes "gsGridIteratorT_abn ops a b np = Inr ut" "np \<noteq> []"
    "length a = length np" "length b = length np"
    "list_all (\<lambda>n. 1 \<le> n) np" "d = None \<or> d = Some (length np)"
    "nat (prod_list np) \<le> fuel" "mode \<noteq> CWISE"
  shows "\<exists>qs ufin. samples ops mode d fuel ut = Some (qs, ufin) \<and> qs \<noteq> [] \<and>
           (\<forall>(q, p) \<in> set qs. \<forall>i<length np.
              (q ! i = 0 \<longrightarrow> p ! i = a ! i) \<and>
              (mode \<noteq> CUBE \<and> q ! i = np ! i - 1 \<and> 2 \<le> np ! i \<longrightarrow> p ! i = b ! i) \<and>
              (mode \<noteq> CUBE \<and> 0 < q ! i \<and> q ! i < np ! i - 1 \<longrightarrow>
                 p ! i = s_add ops (a ! i) (s_mul ops (s_cast ops (q ! i)) (t_step ut ! i)))) \<and>
           snd (hd qs) = a \<and>
           (mode \<noteq> CUBE \<and> list_all (\<lambda>n. 2 \<le> n) np \<longrightarrow> snd (last qs) = b) \<and>
           (\<forall>i<length np. t_step ut ! i
                = s_div ops (s_sub ops (b ! i) (a ! i)) (s_cast ops (max (np ! i - 1) 1)))"
proof -
  from samples_walk [OF assms(1,2,3,5,6,7,8)] obtain qs ufin where
    p: "samples ops mode d fuel ut = Some (qs, ufin)" and nn: "qs \<noteq> []"
    and hd: "hd qs = (replicate (length np) 0, a)" and la: "fst (last qs) = map (\<lambda>x. x - 1) np"
    and el: "\<forall>(q, p) \<in> set qs. length q = length np \<and> length p = length np \<and>
              (\<forall>i<length np. 0 \<le> q ! i \<and> q ! i \<le> np ! i - 1 \<and>
                 p ! i = (if q ! i = 0 then a ! i
                          else if (if mode \<noteq> CUBE then q ! i = np ! i - 1 else q ! i + 1 = np ! i - 1) then b ! i
                          else s_add ops (a ! i) (s_mul ops (s_cast ops (q ! i)) (t_step ut ! i))))"
    by blast
  have 1: "\<forall>(q, p) \<in> set qs. \<forall>i<length np.
              (q ! i = 0 \<longrightarrow> p ! i = a ! i) \<and>
              (mode \<noteq> CUBE \<and> q ! i = np ! i - 1 \<and> 2 \<le> np ! i \<longrightarrow> p ! i = b ! i) \<and>
              (mode \<noteq> CUBE \<and> 0 < q ! i \<and> q ! i < np ! i - 1 \<longrightarrow>
                 p ! i = s_add ops (a ! i) (s_mul ops (s_cast ops (q ! i)) (t_step ut ! i)))"
  proof (intro ballI, clarify)
    fix q p i assume qp: "(q, p) \<in> set qs" and i: "i < length np"
    from el qp i have e: "p ! i = (if q ! i = 0 then a ! i
                          else if (if mode \<noteq> CUBE then q ! i = np ! i - 1 else q ! i + 1 = np ! i - 1) then b ! i
                          else s_add ops (a ! i) (s_mul ops (s_cast ops (q ! i)) (t_step ut ! i)))"
      by blast
    show "(q ! i = 0 \<longrightarrow> p ! i = a ! i) \<and>
              (mode \<noteq> CUBE \<and> q ! i = np ! i - 1 \<and> 2 \<le> np ! i \<longrightarrow> p ! i = b ! i) \<and>
              (mode \<noteq> CUBE \<and> 0 < q ! i \<and> q ! i < np ! i - 1 \<longrightarrow>
                 p ! i = s_add ops (a ! i) (s_mul ops (s_cast ops (q ! i)) (t_step ut ! i)))"
      unfolding e by auto
  qed
  have 2: "snd (last qs) = b" if m: "mode \<noteq> CUBE" and two: "list_all (\<lambda>n. 2 \<le> n) np"
  proof -
    obtain q p where qp: "last qs = (q, p)" by (cases "last qs")
    with nn have mem: "(q, p) \<in> set qs" by (metis last_in_set)
    from la qp have q: "q = map (\<lambda>x. x - 1) np" by simp
    from el mem have len: "length p = length np" by blast
    have "p ! i = b ! i" if i: "i < length np" for i
    proof -
      from two i have t: "2 \<le> np ! i" by (simp add: list_all_length)
      from 1 mem i have "mode \<noteq> CUBE \<and> q ! i = np ! i - 1 \<and> 2 \<le> np ! i \<longrightarrow> p ! i = b ! i"
        by blast
      with m t i q show ?thesis by simp
    qed
    with len assms(4) have "p = b" by (intro nth_equalityI) simp_all
    with qp show ?thesis by simp
  qed
  have 3: "\<forall>i<length np. t_step ut ! i
                = s_div ops (s_sub ops (b ! i) (a ! i)) (s_cast ops (max (np ! i - 1) 1))"
    using abn_shape [OF assms(1)] assms(3,4) by simp
  from p nn 1 2 3 hd show ?thesis by auto
qed

theorem sample_coordinates_witness:
  "\<exists>ut qs ufin.
     gsGridIteratorT_abn \<lparr> s_add = (+), s_sub = (-), s_mul = (*), s_div = (/), s_cast = rat_of_int \<rparr>
       [0, 0] [1, 1] [3, 3] = Inr ut \<and>
     samples \<lparr> s_add = (+), s_sub = (-), s_mul = (*), s_div = (/), s_cast = rat_of_int \<rparr>
       BDR None 9 ut = Some (qs, ufin) \<and>
     qs = [([0, 0], [0, 0]), ([1, 0], [1 / 2, 0]), ([2, 0], [1, 0]), ([0, 1], [0, 1 / 2]),
           ([2, 1], [1, 1 / 2]), ([0, 2], [0, 1]), ([1, 2], [1 / 2, 1]), ([2, 2], [1, 1])] \<and>
     snd (hd qs) = [0, 0] \<and> snd (last qs) = [1, 1]"
proof -
  let ?ops = "\<lparr> s_add = (+), s_sub = (-), s_mul = (*), s_div = (/), s_cast = rat_of_int \<rparr>"
  let ?ut = "\<lparr> t_low = [0, 0], t_upp = [1, 1], t_step = [1 / 2, 1 / 2],
               t_iter = \<lparr> m_low = [0, 0], m_upp = [2, 2], m_cur = [0, 0], m_dim = 2 \<rparr>,
               t_cur = [0, 0 :: rat] \<rparr>"
  let ?ufin = "\<lparr> t_low = [0, 0], t_upp = [1, 1], t_step = [1 / 2, 1 / 2],
               t_iter = \<lparr> m_low = [0, 0], m_upp = [2, 2], m_cur = [2, 2], m_dim = 0 \<rparr>,
               t_cur = [1, 1 :: rat] \<rparr>"
  let ?qs = "[([0, 0], [0, 0]), ([1, 0], [1 / 2, 0]), ([2, 0], [1, 0]), ([0, 1], [0, 1 / 2]),
           ([2, 1], [1, 1 / 2]), ([0, 2], [0, 1]), ([1, 2], [1 / 2, 1]), ([2, 2], [1, 1 :: rat])]"
  have c: "gsGridIteratorT_abn ?ops [0, 0] [1, 1] [3, 3] = Inr ?ut" by code_simp
  have e: "samples ?ops BDR None 9 ?ut = Some (?qs, ?ufin)" by code_simp
  from sample_coordinates [OF c, of None 9 BDR] e
  have "snd (hd ?qs) = [0, 0] \<and> snd (last ?qs) = [1, 1]" by simp
  with c e show ?thesis by blast
qed

text \<open>
  The claim as it was stated fails on an axis with a single sample: for \<open>a = [0]\<close>,
  \<open>b = [1]\<close>, \<open>np = [1]\<close> in mode 1 the only emitted point has the tensor index
  \<open>0 = np[0] - 1\<close>, the ceiling, and the coordinate \<open>0 = a[0]\<close>, not \<open>b[0] = 1\<close>; it is
  the first and the last sample.
\<close>

theorem sample_ceiling_counterexample:
  "gsGridIteratorT_abn \<lparr> s_add = (+), s_sub = (-), s_mul = (*), s_div = (/), s_cast = rat_of_int \<rparr>
     [0] [1] [1]
     = Inr \<lparr> t_low = [0], t_upp = [1], t_step = [1],
             t_iter = \<lparr> m_low = [0], m_upp = [0], m_cur = [0], m_dim = 1 \<rparr>, t_cur = [0] \<rparr> \<and>
   samples \<lparr> s_add = (+), s_sub = (-), s_mul = (*), s_div = (/), s_cast = rat_of_int \<rparr> BDR None 1
     \<lparr> t_low = [0], t_upp = [1], t_step = [1],
       t_iter = \<lparr> m_low = [0], m_upp = [0], m_cur = [0], m_dim = 1 \<rparr>, t_cur = [0] \<rparr>
     = Some ([([0], [0])],
             \<lparr> t_low = [0], t_upp = [1], t_step = [1],
               t_iter = \<lparr> m_low = [0], m_upp = [0], m_cur = [0], m_dim = 0 \<rparr>, t_cur = [0] \<rparr>) \<and>
   [0] ! 0 = [1 :: int] ! 0 - 1 \<and> [0] ! 0 \<noteq> [1 :: rat] ! 0"
  by code_simp

section \<open>The coordinate-wise iterator: which coordinates are written\<close>

text \<open>
  The extent of every axis of the inner lattice is the number of rows of its coordinate
  array. A single array given as a row contributes its first entry only; when the first
  array has one row the current point is a column and every coordinate is written.
\<close>

lemma cwise_extents:
  assumes "gsGridIteratorC_cwise cwise = Inr ct"
  shows "numPointsCwise (c_iter ct) = map (\<lambda>m. int (rows m)) cwise"
proof -
  from assms obtain li where li: "gsGridIterator_b (map (\<lambda>m. int (rows m) - 1) cwise) False = Inr li"
    and ct: "c_iter ct = c_iter (update \<lparr> c_cwise = cwise, c_iter = li, c_cur = (if 1 = rows (hd cwise)
                                      then \<lparr> rows = length cwise, cols = 1,
                                             coeffs = replicate (length cwise) None \<rparr>
                                      else \<lparr> rows = 1, cols = length cwise,
                                             coeffs = replicate (length cwise) None \<rparr>) \<rparr>)"
    by (auto simp: gsGridIteratorC_cwise_def split: if_splits sum.splits)
  from li have "m_low li = replicate (length cwise) 0" "m_upp li = map (\<lambda>m. int (rows m) - 1) cwise"
    by (auto simp: gsGridIterator_b_def reset3_def Let_def)
  then show ?thesis unfolding ct
    by (intro nth_equalityI) (simp_all add: update_def numPointsCwise_def)
qed

lemma cwise_row_vector_example:
  "gsGridIteratorC_cwise [\<lparr> rows = 1, cols = 3, coeffs = [1 :: int, 2, 3] \<rparr>]
     = Inr \<lparr> c_cwise = [\<lparr> rows = 1, cols = 3, coeffs = [1, 2, 3] \<rparr>],
             c_iter = \<lparr> m_low = [0], m_upp = [0], m_cur = [0], m_dim = 1 \<rparr>,
             c_cur = \<lparr> rows = 1, cols = 1, coeffs = [Some 1] \<rparr> \<rparr> \<and>
   pointsC None 1
     \<lparr> c_cwise = [\<lparr> rows = 1, cols = 3, coeffs = [1 :: int, 2, 3] \<rparr>],
       c_iter = \<lparr> m_low = [0], m_upp = [0], m_cur = [0], m_dim = 1 \<rparr>,
       c_cur = \<lparr> rows = 1, cols = 1, coeffs = [Some 1] \<rparr> \<rparr>
     = Some ([\<lparr> rows = 1, cols = 1, coeffs = [Some 1] \<rparr>],
             \<lparr> c_cwise = [\<lparr> rows = 1, cols = 3, coeffs = [1, 2, 3] \<rparr>],
               c_iter = \<lparr> m_low = [0], m_upp = [0], m_cur = [0], m_dim = 0 \<rparr>,
               c_cur = \<lparr> rows = 1, cols = 1, coeffs = [Some 1] \<rparr> \<rparr>)"
  by code_simp

lemma cwise_first_array_single_example:
  "gsGridIteratorC_cwise [\<lparr> rows = 1, cols = 1, coeffs = [0 :: int] \<rparr>,
                          \<lparr> rows = 3, cols = 1, coeffs = [5, 6, 7] \<rparr>]
     = Inr \<lparr> c_cwise = [\<lparr> rows = 1, cols = 1, coeffs = [0] \<rparr>,
                        \<lparr> rows = 3, cols = 1, coeffs = [5, 6, 7] \<rparr>],
             c_iter = \<lparr> m_low = [0, 0], m_upp = [0, 2], m_cur = [0, 0], m_dim = 2 \<rparr>,
             c_cur = \<lparr> rows = 2, cols = 1, coeffs = [Some 0, Some 5] \<rparr> \<rparr> \<and>
   pointsC None 3
     \<lparr> c_cwise = [\<lparr> rows = 1, cols = 1, coeffs = [0 :: int] \<rparr>,
                  \<lparr> rows = 3, cols = 1, coeffs = [5, 6, 7] \<rparr>],
       c_iter = \<lparr> m_low = [0, 0], m_upp = [0, 2], m_cur = [0, 0], m_dim = 2 \<rparr>,
       c_cur = \<lparr> rows = 2, cols = 1, coeffs = [Some 0, Some 5] \<rparr> \<rparr>
     = Some ([\<lparr> rows = 2, cols = 1, coeffs = [Some 0, Some 5] \<rparr>,
              \<lparr> rows = 2, cols = 1, coeffs = [Some 0, Some 6] \<rparr>,
              \<lparr> rows = 2, cols = 1, coeffs = [Some 0, Some 7] \<rparr>],
             \<lparr> c_cwise = [\<lparr> rows = 1, cols = 1, coeffs = [0] \<rparr>,
                          \<lparr> rows = 3, cols = 1, coeffs = [5, 6, 7] \<rparr>],
               c_iter = \<lparr> m_low = [0, 0], m_upp = [0, 2], m_cur = [0, 0], m_dim = 0 \<rparr>,
               c_cur = \<lparr> rows = 2, cols = 1, coeffs = [Some 0, Some 7] \<rparr> \<rparr>)"
  by code_simp

text \<open>
  Claim C10. With two coordinate arrays given as columns, \<open>[0, 10]\<close> and \<open>[5, 6, 7]\<close>, the
  current point is resized to 1-by-2, \<open>update\<close> runs over its single row, and no entry of
  the second array reaches an emitted point: the six emitted points carry the entries of
  the first array in coordinate 0 and nothing in coordinate 1.
\<close>

theorem cwise_columns_second_axis_unwritten:
  "gsGridIteratorC_cwise [\<lparr> rows = 2, cols = 1, coeffs = [0 :: int, 10] \<rparr>,
                          \<lparr> rows = 3, cols = 1, coeffs = [5, 6, 7] \<rparr>]
     = Inr \<lparr> c_cwise = [\<lparr> rows = 2, cols = 1, coeffs = [0, 10] \<rparr>,
                        \<lparr> rows = 3, cols = 1, coeffs = [5, 6, 7] \<rparr>],
             c_iter = \<lparr> m_low = [0, 0], m_upp = [1, 2], m_cur = [0, 0], m_dim = 2 \<rparr>,
             c_cur = \<lparr> rows = 1, cols = 2, coeffs = [Some 0, None] \<rparr> \<rparr> \<and>
   numPointsCwise \<lparr> m_low = [0, 0], m_upp = [1, 2], m_cur = [0, 0], m_dim = 2 \<rparr> = [2, 3] \<and>
   pointsC None 6
     \<lparr> c_cwise = [\<lparr> rows = 2, cols = 1, coeffs = [0 :: int, 10] \<rparr>,
                  \<lparr> rows = 3, cols = 1, coeffs = [5, 6, 7] \<rparr>],
       c_iter = \<lparr> m_low = [0, 0], m_upp = [1, 2], m_cur = [0, 0], m_dim = 2 \<rparr>,
       c_cur = \<lparr> rows = 1, cols = 2, coeffs = [Some 0, None] \<rparr> \<rparr>
     = Some ([\<lparr> rows = 1, cols = 2, coeffs = [Some 0, None] \<rparr>,
              \<lparr> rows = 1, cols = 2, coeffs = [Some 10, None] \<rparr>,
              \<lparr> rows = 1, cols = 2, coeffs = [Some 0, None] \<rparr>,
              \<lparr> rows = 1, cols = 2, coeffs = [Some 10, None] \<rparr>,
              \<lparr> rows = 1, cols = 2, coeffs = [Some 0, None] \<rparr>,
              \<lparr> rows = 1, cols = 2, coeffs = [Some 10, None] \<rparr>],
             \<lparr> c_cwise = [\<lparr> rows = 2, cols = 1, coeffs = [0, 10] \<rparr>,
                          \<lparr> rows = 3, cols = 1, coeffs = [5, 6, 7] \<rparr>],
               c_iter = \<lparr> m_low = [0, 0], m_upp = [1, 2], m_cur = [0, 0], m_dim = 0 \<rparr>,
               c_cur = \<lparr> rows = 1, cols = 2, coeffs = [Some 10, None] \<rparr> \<rparr>)"
  by code_simp

end
